theory Spec2Isabelle
  imports Main
begin

section \<open>JavaScript strings\<close>

text \<open>
  The plugin is TypeScript; all of its logic is string processing. A JavaScript string is a
  sequence of 16-bit code units. The model has the strings whose code units are all below
  U+0100, as Isabelle strings: one \<open>char\<close> per code unit, \<open>CHR n\<close> for the code unit \<open>n\<close>.

  White space (\<open>\s\<close>, \<open>trim\<close>) is the ECMAScript WhiteSpace and LineTerminator
  productions; below U+0100 these are U+0009 to U+000D, U+0020 and the no-break space
  U+00A0. The line terminators (\<open>^\<close> with the flag \<open>m\<close>) below U+0100 are U+000A and U+000D.
\<close>

definition is_space :: "char \<Rightarrow> bool" where
  "is_space c =
     (c \<in> set [CHR 0x09, CHR 0x0A, CHR 0x0B, CHR 0x0C, CHR 0x0D, CHR '' '', CHR 0xA0])"

definition is_line_terminator :: "char \<Rightarrow> bool" where
  "is_line_terminator c = (c = CHR 0x0A \<or> c = CHR 0x0D)"

text \<open>\<open>String.prototype.trim\<close>.\<close>

definition trim :: "string \<Rightarrow> string" where
  "trim s = rev (dropWhile is_space (rev (dropWhile is_space s)))"

text \<open>
  \<open>toLowerCase\<close> and \<open>toUpperCase\<close> are the case mappings of Unicode. Below U+0100 the
  letters with another case are \<open>A\<close> to \<open>Z\<close> and \<open>a\<close> to \<open>z\<close>, U+00C0 to U+00DE without the
  sign U+00D7, U+00DF to U+00FF without the sign U+00F7, and the micro sign U+00B5. The
  lower case of a capital is 32 above it, so \<open>toLowerCase\<close> gives a string of the model.
  \<open>toUpperCase\<close> does not: the capital of U+00DF is \<open>SS\<close>, that of U+00B5 is U+039C and
  that of U+00FF is U+0178. Its result is the list of its code units, as numbers;
  \<open>units\<close> is a string of the model as such a list.
\<close>

definition units :: "string \<Rightarrow> nat list" where
  "units s = map of_char s"

definition lower_char :: "char \<Rightarrow> char" where
  "lower_char c =
     (let n = (of_char c :: nat) in
      if (65 \<le> n \<and> n \<le> 90) \<or> (192 \<le> n \<and> n \<le> 222 \<and> n \<noteq> 215) then char_of (n + 32)
      else c)"

definition upper_char :: "char \<Rightarrow> nat list" where
  "upper_char c =
     (let n = (of_char c :: nat) in
      if (97 \<le> n \<and> n \<le> 122) \<or> (224 \<le> n \<and> n \<le> 254 \<and> n \<noteq> 247) then [n - 32]
      else if n = 223 then [83, 83]
      else if n = 181 then [924]
      else if n = 255 then [376]
      else [n])"

definition toUpperCase :: "string \<Rightarrow> nat list" where
  "toUpperCase s = concat (map upper_char s)"

definition toLowerCase :: "string \<Rightarrow> string" where
  "toLowerCase s = map lower_char s"

text \<open>
  \<open>strip_prefix p s\<close> is the rest of \<open>s\<close> after the literal \<open>p\<close>, when \<open>s\<close> starts with it:
  a literal piece of a regular expression matched at the current position.
\<close>

fun strip_prefix :: "string \<Rightarrow> string \<Rightarrow> string option" where
  "strip_prefix [] s = Some s"
| "strip_prefix (p # ps) [] = None"
| "strip_prefix (p # ps) (c # cs) = (if p = c then strip_prefix ps cs else None)"

text \<open>An optional literal \<open>(p)?\<close>: consumed when present.\<close>

definition opt_prefix :: "string \<Rightarrow> string \<Rightarrow> string" where
  "opt_prefix p s = (case strip_prefix p s of Some r \<Rightarrow> r | None \<Rightarrow> s)"

text \<open>\<open>String.prototype.startsWith\<close>.\<close>

definition startsWith :: "string \<Rightarrow> string \<Rightarrow> bool" where
  "startsWith s p = (strip_prefix p s \<noteq> None)"

text \<open>
  \<open>split_first pat s\<close> cuts \<open>s\<close> at the first occurrence of \<open>pat\<close> (the position
  \<open>indexOf\<close> finds) and returns the text before it and the text after it.
\<close>

fun split_first :: "string \<Rightarrow> string \<Rightarrow> (string \<times> string) option" where
  "split_first pat [] = (if pat = [] then Some ([], []) else None)"
| "split_first pat (c # cs) =
     (case strip_prefix pat (c # cs) of
        Some r \<Rightarrow> Some ([], r)
      | None \<Rightarrow> map_option (\<lambda>(b, a). (c # b, a)) (split_first pat cs))"

text \<open>\<open>String.prototype.includes\<close>.\<close>

definition str_includes :: "string \<Rightarrow> string \<Rightarrow> bool" where
  "str_includes s pat = (split_first pat s \<noteq> None)"

text \<open>
  ECMAScript \<open>GetSubstitution\<close> for a match without capture groups, which is the case at
  every call of \<open>replace\<close> with a replacement string in this program: in the replacement,
  \<open>$$\<close> stands for \<open>$\<close>, \<open>$&\<close> for the matched text, \<open>$`\<close> for the text before the match
  and \<open>$'\<close> for the text after it. A \<open>$\<close> before anything else (a digit or \<open><\<close> too, as
  there is no group) stays as it is.
\<close>

fun getSubstitution :: "string \<Rightarrow> string \<Rightarrow> string \<Rightarrow> string \<Rightarrow> string" where
  "getSubstitution pre matched post [] = []"
| "getSubstitution pre matched post [c] = [c]"
| "getSubstitution pre matched post (c # d # t) =
     (if c = CHR ''$'' then
        if d = CHR ''$'' then CHR ''$'' # getSubstitution pre matched post t
        else if d = CHR ''&'' then matched @ getSubstitution pre matched post t
        else if d = CHR 0x60 then pre @ getSubstitution pre matched post t
        else if d = CHR 0x27 then post @ getSubstitution pre matched post t
        else c # getSubstitution pre matched post (d # t)
      else c # getSubstitution pre matched post (d # t))"

text \<open>
  \<open>s.replace(pat, repl)\<close> with a string pattern and a replacement string: the first
  occurrence of \<open>pat\<close> only, with the replacement expanded by \<open>GetSubstitution\<close>.
\<close>

definition replace_str :: "string \<Rightarrow> string \<Rightarrow> string \<Rightarrow> string" where
  "replace_str s pat repl =
     (case split_first pat s of
        None \<Rightarrow> s
      | Some (pre, post) \<Rightarrow> pre @ getSubstitution pre pat post repl @ post)"

text \<open>
  Regular expressions. A matcher takes the text before the current position and the text
  from it on, and returns the capture it extracts and the text after the match; none of
  the expressions of this program matches the empty string. A replacer is the function
  that \<open>replace\<close> calls at each match, on the text before, the matched text, the capture
  and the text after.

  \<open>regex_replace_all\<close> is \<open>s.replace(re, f)\<close> for a global expression: matches are looked
  for from left to right, each search starting where the previous match ended; text that
  is not matched is copied. (A match that consumes nothing, which no expression of this
  program has, is passed over.) \<open>regex_exec\<close> is the first match only, as
  \<open>s.match(re)\<close> gives it for an expression without the global flag.
\<close>

type_synonym 'c matcher = "string \<Rightarrow> string \<Rightarrow> ('c \<times> string) option"
type_synonym 'c replacer = "string \<Rightarrow> string \<Rightarrow> 'c \<Rightarrow> string \<Rightarrow> string"

function regex_replace_all :: "'c matcher \<Rightarrow> 'c replacer \<Rightarrow> string \<Rightarrow> string \<Rightarrow> string" where
  "regex_replace_all m f pre s =
     (case m pre s of
        Some (cap, rest) \<Rightarrow>
          if length rest < length s then
            f pre (take (length s - length rest) s) cap rest
              @ regex_replace_all m f (pre @ take (length s - length rest) s) rest
          else (case s of [] \<Rightarrow> [] | c # cs \<Rightarrow> c # regex_replace_all m f (pre @ [c]) cs)
      | None \<Rightarrow> (case s of [] \<Rightarrow> [] | c # cs \<Rightarrow> c # regex_replace_all m f (pre @ [c]) cs))"
  by pat_completeness auto
termination
  by (relation "measure (\<lambda>(m, f, pre, s). length s)") auto

declare regex_replace_all.simps [simp del]

fun regex_exec :: "'c matcher \<Rightarrow> string \<Rightarrow> string \<Rightarrow> (string \<times> string \<times> string) option" where
  "regex_exec m pre [] =
     (case m pre [] of Some (cap, rest) \<Rightarrow> Some (pre, [], rest) | None \<Rightarrow> None)"
| "regex_exec m pre (c # cs) =
     (case m pre (c # cs) of
        Some (cap, rest) \<Rightarrow>
          Some (pre, take (length (c # cs) - length rest) (c # cs), rest)
      | None \<Rightarrow> regex_exec m (pre @ [c]) cs)"

text \<open>A literal token such as \<open>/\{\{about\}\}/g\<close>, and a replacement string.\<close>

definition literal :: "string \<Rightarrow> unit matcher" where
  "literal tok pre s = map_option (Pair ()) (strip_prefix tok s)"

definition replacement :: "string \<Rightarrow> unit replacer" where
  "replacement repl pre matched cap post = getSubstitution pre matched post repl"

text \<open>\<open>s.split(d)\<close> with a one-character separator, and \<open>Array.prototype.pop\<close>.\<close>

fun split_on :: "char \<Rightarrow> string \<Rightarrow> string list" where
  "split_on d [] = [[]]"
| "split_on d (c # cs) =
     (if c = d then [] # split_on d cs
      else (case split_on d cs of w # ws \<Rightarrow> (c # w) # ws | [] \<Rightarrow> [[c]]))"

definition pop :: "'a list \<Rightarrow> 'a option" where
  "pop xs = (if xs = [] then None else Some (last xs))"

text \<open>\<open>Array.prototype.join\<close>.\<close>

fun join :: "'a list \<Rightarrow> 'a list list \<Rightarrow> 'a list" where
  "join sep [] = []"
| "join sep [w] = w"
| "join sep (w # v # ws) = w @ sep @ join sep (v # ws)"

section \<open>Data model\<close>

record DockerStackFile =
  name :: string
  content :: string

record DockerToObsiSettings =
  ghUsername :: string
  ghRepository :: string
  ghToken :: string
  folderPath :: string
  frontmatterProperty :: string
  templateFilePath :: string
  useAI :: bool
  openaiApiKey :: string
  fileNamePrefix :: string
  fileNameSuffix :: string

definition DEFAULT_SETTINGS :: DockerToObsiSettings where
  "DEFAULT_SETTINGS =
     \<lparr>ghUsername = [], ghRepository = [], ghToken = [], folderPath = [],
      frontmatterProperty = ''stackName'', templateFilePath = [], useAI = False,
      openaiApiKey = [], fileNamePrefix = [], fileNameSuffix = []\<rparr>"

section \<open>github.ts\<close>

text \<open>
  The name of a stack, from the path of its file:
  \<open>path.replace("/compose.yaml", "").split("/").pop() || "__unknown__"\<close>.
\<close>

definition stack_name :: "string \<Rightarrow> string" where
  "stack_name path =
     (case pop (split_on (CHR ''/'') (replace_str path ''/compose.yaml'' [])) of
        None \<Rightarrow> ''__unknown__''
      | Some seg \<Rightarrow> if seg = [] then ''__unknown__'' else seg)"

text \<open>
  The repository as the contents API shows it: an entry is a file, with its name and its
  path, or a directory, with its path and the listing of it (\<open>None\<close> when the request
  fails). \<open>fetchComposeYamlFiles\<close> walks a listing: the files whose name includes
  \<open>compose.yaml\<close>, then what the directories hold, in their order; a listing that fails
  fails the walk.
\<close>

datatype repo_entry =
  RepoFile string string
| RepoDir string "repo_entry list option"

fun fetchComposeYamlFiles :: "repo_entry list option \<Rightarrow> string list option"
  and files_of_entry :: "repo_entry \<Rightarrow> string list"
  and directory_of_entry :: "repo_entry \<Rightarrow> string list option option"
  and fetch_directories :: "repo_entry list \<Rightarrow> string list option"
where
  "fetchComposeYamlFiles None = None"
| "fetchComposeYamlFiles (Some items) =
     (case fetch_directories items of
        None \<Rightarrow> None
      | Some sub \<Rightarrow> Some (concat (map files_of_entry items) @ sub))"
| "files_of_entry (RepoFile nm path) = (if str_includes nm ''compose.yaml'' then [path] else [])"
| "files_of_entry (RepoDir path listing) = []"
| "directory_of_entry (RepoFile nm path) = None"
| "directory_of_entry (RepoDir path listing) = Some (fetchComposeYamlFiles listing)"
| "fetch_directories [] = Some []"
| "fetch_directories (e # es) =
     (case directory_of_entry e of
        None \<Rightarrow> fetch_directories es
      | Some None \<Rightarrow> None
      | Some (Some fs) \<Rightarrow> map_option (\<lambda>r. fs @ r) (fetch_directories es))"

text \<open>
  \<open>fetchAllComposeStackFiles\<close>: the content of every listed path, paired with the name
  computed from the path; one failed request fails the whole.
\<close>

definition stack_of :: "string \<Rightarrow> string \<Rightarrow> DockerStackFile" where
  "stack_of path text = \<lparr>name = stack_name path, content = text\<rparr>"

fun fetch_contents :: "(string \<Rightarrow> string option) \<Rightarrow> string list \<Rightarrow> DockerStackFile list option" where
  "fetch_contents fetchGithubFileContent [] = Some []"
| "fetch_contents fetchGithubFileContent (p # ps) =
     (case fetchGithubFileContent p of
        None \<Rightarrow> None
      | Some text \<Rightarrow>
          map_option (\<lambda>r. stack_of p text # r) (fetch_contents fetchGithubFileContent ps))"

definition fetchAllComposeStackFiles ::
  "repo_entry list option \<Rightarrow> (string \<Rightarrow> string option) \<Rightarrow> DockerStackFile list option" where
  "fetchAllComposeStackFiles root fetchGithubFileContent =
     (case fetchComposeYamlFiles root of
        None \<Rightarrow> None
      | Some filePaths \<Rightarrow> fetch_contents fetchGithubFileContent filePaths)"

section \<open>ai.ts\<close>

text \<open>
  The generation service is an external API: \<open>generateText\<close> and \<open>generateObject\<close> are
  given the user message and answer with the text, respectively the list of tags, or fail
  (\<open>None\<close>: a network error or a malformed response). The schema that the program passes
  to \<open>generateObject\<close> is checked on the answer, and an answer outside it is a failure too.
  Each operation also returns the requests it has sent.
\<close>

record ai_api =
  generateText :: "string \<Rightarrow> string option"
  generateObject :: "string \<Rightarrow> string list option"

definition tags_schema :: "string list \<Rightarrow> bool" where
  "tags_schema tags =
     (1 \<le> length tags \<and> length tags \<le> 3 \<and> list_all (\<lambda>t. 1 \<le> length t \<and> length t \<le> 20) tags)"

definition generateStackDescription ::
  "DockerToObsiSettings \<Rightarrow> ai_api \<Rightarrow> DockerStackFile \<Rightarrow> string \<times> string list" where
  "generateStackDescription st api stack =
     (let apiKey = trim (openaiApiKey st) in
      if apiKey = [] then (''Write description here'', [])
      else
        (let prompt = ''Give a short description of '' @ [CHR 0x22] @ name stack @ [CHR 0x22] in
         case generateText api prompt of
           None \<Rightarrow> (''Write description here'', [prompt])
         | Some text \<Rightarrow> (trim text, [prompt])))"

definition generateStackTags ::
  "DockerToObsiSettings \<Rightarrow> ai_api \<Rightarrow> DockerStackFile \<Rightarrow> string list \<times> string list" where
  "generateStackTags st api stack =
     (let apiKey = trim (openaiApiKey st) in
      if apiKey = [] then ([], [])
      else
        (let prompt = ''Suggest tags for '' @ [CHR 0x22] @ name stack @ [CHR 0x22] in
         case generateObject api prompt of
           None \<Rightarrow> ([], [prompt])
         | Some tags \<Rightarrow> if tags_schema tags then (tags, [prompt]) else ([], [prompt])))"

section \<open>obsidian.ts: fenced blocks\<close>

text \<open>
  The expression
  \<^verbatim>\<open>^```ya?ml\s+title=(docker-)?compose\.ya?ml\r?\n([\s\S]*?)\n```\<close>
  with the flag \<open>m\<close>. Its header is matched piece by piece: \<open>opt_lit p q\<close> is an optional
  literal \<open>p\<close> followed by the literal \<open>q\<close>, and \<open>spaces_lit q\<close> is \<open>\s+\<close> followed by the
  literal \<open>q\<close>. No piece can be matched in two ways (the character after an optional
  literal differs from the first character of that literal, and the character after the
  white space is not white space), so backtracking finds nothing that matching from left
  to right does not. The lazy body ends at the first line feed followed by three
  backquotes. With \<open>m\<close>, \<open>^\<close> holds at the start of the text and after a line terminator.
\<close>

definition opt_lit :: "string \<Rightarrow> string \<Rightarrow> string \<Rightarrow> string option" where
  "opt_lit p q s = strip_prefix q (opt_prefix p s)"

definition spaces_lit :: "string \<Rightarrow> string \<Rightarrow> string option" where
  "spaces_lit q s =
     (if takeWhile is_space s = [] then None else strip_prefix q (dropWhile is_space s))"

definition yaml_header :: "string \<Rightarrow> string option" where
  "yaml_header s =
     Option.bind (Option.bind (Option.bind (Option.bind (Option.bind
       (strip_prefix ''```y'' s)
       (opt_lit ''a'' ''ml''))
       (spaces_lit ''title=''))
       (opt_lit ''docker-'' ''compose.y''))
       (opt_lit ''a'' ''ml''))
       (opt_lit [CHR 0x0D] [CHR 0x0A])"

definition line_start :: "string \<Rightarrow> bool" where
  "line_start pre = (pre = [] \<or> is_line_terminator (last pre))"

definition yamlCodeBlockRegex :: "unit matcher" where
  "yamlCodeBlockRegex pre s =
     (if line_start pre then
        (case yaml_header s of
           None \<Rightarrow> None
         | Some body \<Rightarrow> map_option (\<lambda>(b, a). ((), a)) (split_first ''\<newline>```'' body))
      else None)"

text \<open>The block that both operations write: the fixed header, the trimmed content, the fence.\<close>

definition newCodeBlock :: "string \<Rightarrow> string" where
  "newCodeBlock newContent = ''```yaml title=compose.yaml\<newline>'' @ trim newContent @ ''\<newline>```''"

text \<open>
  \<open>updateYamlCodeBlock\<close> on the text of a note: \<open>None\<close> when no block matches (the note
  is left alone and \<open>false\<close> is returned), else the new text. The old block is the first
  match of the expression; it is then replaced as a string, by \<open>content.replace\<close>.
\<close>

definition updateYamlCodeBlock :: "string \<Rightarrow> string \<Rightarrow> string option" where
  "updateYamlCodeBlock fileContent newContent =
     (case regex_exec yamlCodeBlockRegex [] fileContent of
        None \<Rightarrow> None
      | Some (pre, oldCodeBlock, post) \<Rightarrow>
          Some (replace_str fileContent oldCodeBlock (newCodeBlock newContent)))"

text \<open>\<open>processYamlCodeBlocks\<close>: the same expression with the flags \<open>gm\<close>, and a function as replacement.\<close>

definition processYamlCodeBlocks :: "string \<Rightarrow> string \<Rightarrow> string" where
  "processYamlCodeBlocks template stackContent =
     regex_replace_all yamlCodeBlockRegex (\<lambda>pre matched cap post. newCodeBlock stackContent)
       [] template"

section \<open>obsidian.ts: templates and file names\<close>

text \<open>
  \<open>moment()\<close> is the current time, and the program only formats it: the clock is the
  function \<open>now.format\<close>, from a format to the formatted time, \<open>None\<close> when it throws.

  The expression \<open>/\{\{date:([^}]+)\}\}/g\<close>: the format is the longest run of characters
  other than \<open>}\<close>, not empty, and \<open>}}\<close> must follow it.
\<close>

type_synonym moment = "string \<Rightarrow> string option"

definition dateFormatRegex :: "string matcher" where
  "dateFormatRegex pre s =
     (case strip_prefix ''{{date:'' s of
        None \<Rightarrow> None
      | Some r \<Rightarrow>
          if takeWhile (\<lambda>c. c \<noteq> CHR ''}'') r = [] then None
          else map_option (Pair (takeWhile (\<lambda>c. c \<noteq> CHR ''}'') r))
                 (strip_prefix ''}}'' (dropWhile (\<lambda>c. c \<noteq> CHR ''}'') r)))"

text \<open>
  \<open>processDateVariables\<close>. A format that throws is replaced by the default format; the
  default format is computed in any case for the second replacement, so that the function
  throws exactly when \<open>now.format("YYYY/MM/DD")\<close> does.
\<close>

definition processDateVariables :: "moment \<Rightarrow> string \<Rightarrow> string option" where
  "processDateVariables now template =
     (case now ''YYYY/MM/DD'' of
        None \<Rightarrow> None
      | Some today \<Rightarrow>
          Some (regex_replace_all (literal ''{{date}}'') (replacement today) []
                 (regex_replace_all dateFormatRegex
                    (\<lambda>pre matched format post.
                        case now format of Some d \<Rightarrow> d | None \<Rightarrow> today)
                    [] template)))"

text \<open>\<open>stackName.split(/[-_\s]+/)\<close>: the words between the runs of separators.\<close>

definition is_separator :: "char \<Rightarrow> bool" where
  "is_separator c = (c = CHR ''-'' \<or> c = CHR ''_'' \<or> is_space c)"

function split_words :: "string \<Rightarrow> string list" where
  "split_words s =
     (if dropWhile (\<lambda>c. \<not> is_separator c) s = [] then [s]
      else takeWhile (\<lambda>c. \<not> is_separator c) s
             # split_words (dropWhile is_separator (dropWhile (\<lambda>c. \<not> is_separator c) s)))"
  by pat_completeness auto
termination
proof (relation "measure length")
  fix s :: string
  assume ne: "dropWhile (\<lambda>c. \<not> is_separator c) s \<noteq> []"
  then obtain c cs where r: "dropWhile (\<lambda>c. \<not> is_separator c) s = c # cs"
    by (cases "dropWhile (\<lambda>c. \<not> is_separator c) s") auto
  from r have "is_separator c"
    using hd_dropWhile [of "\<lambda>c. \<not> is_separator c" s] by simp
  then have "length (dropWhile is_separator (c # cs)) \<le> length cs"
    by (simp add: length_dropWhile_le)
  moreover have "length (c # cs) \<le> length s"
    using length_dropWhile_le [of "\<lambda>c. \<not> is_separator c" s] r by simp
  ultimately show "(dropWhile is_separator (dropWhile (\<lambda>c. \<not> is_separator c) s), s) \<in> measure length"
    using r by simp
qed simp

declare split_words.simps [simp del]

text \<open>\<open>word.charAt(0).toUpperCase() + word.slice(1).toLowerCase()\<close>.\<close>

definition capitalize_word :: "string \<Rightarrow> nat list" where
  "capitalize_word word = toUpperCase (take 1 word) @ units (toLowerCase (drop 1 word))"

definition capitalizeStackName :: "string \<Rightarrow> nat list" where
  "capitalizeStackName stackName =
     join (units '' '') (map capitalize_word (split_words stackName))"

text \<open>
  \<open>generateFileName\<close>: the code units of the file name, \<open>None\<close> when the date step throws.
\<close>

definition generateFileName :: "DockerToObsiSettings \<Rightarrow> moment \<Rightarrow> string \<Rightarrow> nat list option" where
  "generateFileName st now stackName =
     (let capitalizedName = capitalizeStackName stackName in
      case (if fileNamePrefix st \<noteq> [] then processDateVariables now (fileNamePrefix st)
            else Some []) of
        None \<Rightarrow> None
      | Some processedPrefix \<Rightarrow>
     (case (if fileNameSuffix st \<noteq> [] then processDateVariables now (fileNameSuffix st)
            else Some []) of
        None \<Rightarrow> None
      | Some processedSuffix \<Rightarrow>
          (let fileName = capitalizedName;
               fileName = (if processedPrefix \<noteq> [] then units processedPrefix @ fileName
                           else fileName);
               fileName = (if processedSuffix \<noteq> [] then fileName @ units processedSuffix
                           else fileName)
           in Some (fileName @ units ''.md''))))"

text \<open>
  \<open>processTemplate\<close>: the content goes in at the token \<open>{{stackContent}}\<close> when the
  template has one, else into the fenced blocks. \<open>fillPlaceholders\<close> is the rest of the
  function, on the template with the content in: the description, the dates, the name and
  the description put in. \<open>None\<close> when the date step throws.
\<close>

definition fillPlaceholders ::
  "DockerToObsiSettings \<Rightarrow> moment \<Rightarrow> ai_api \<Rightarrow> DockerStackFile \<Rightarrow> string \<Rightarrow> string option" where
  "fillPlaceholders st now api stack processedTemplate =
     (let description =
            (if str_includes processedTemplate ''{{about}}'' \<and> useAI st then
               fst (generateStackDescription st api stack)
             else ''Write description here'')
      in case processDateVariables now processedTemplate of
           None \<Rightarrow> None
         | Some dated \<Rightarrow>
             Some (regex_replace_all (literal ''{{about}}'') (replacement description) []
                    (regex_replace_all (literal ''{{stackName}}'') (replacement (name stack)) []
                       dated)))"

definition processTemplate ::
  "DockerToObsiSettings \<Rightarrow> moment \<Rightarrow> ai_api \<Rightarrow> string \<Rightarrow> DockerStackFile \<Rightarrow> string option" where
  "processTemplate st now api template stack =
     fillPlaceholders st now api stack
       (if str_includes template ''{{stackContent}}'' then
          regex_replace_all (literal ''{{stackContent}}'') (replacement (content stack)) []
            template
        else processYamlCodeBlocks template (content stack))"

section \<open>The expressions as data\<close>

text \<open>
  The regular expressions of the program, written as lists of pieces, with the matching of
  ECMAScript: the alternatives of a piece are tried in order of priority (an optional
  literal is taken before it is left out, a greedy run is tried longest first, a lazy run
  shortest first), and the rest of the expression is matched after each. \<open>matches\<close> lists
  the texts left after every way to match, in the order in which backtracking finds them;
  the match of the expression at a position is the first of them. The matchers above are
  proved equal to it (\<open>yamlCodeBlockRegex_expression\<close>, \<open>dateFormatRegex_expression\<close>).
\<close>

datatype piece =
  Lit string
| OptLit string
| Spaces
| NotBraces
| AnyLazy

fun greedy_run :: "(char \<Rightarrow> bool) \<Rightarrow> string \<Rightarrow> string list" where
  "greedy_run P [] = []"
| "greedy_run P (c # cs) = (if P c then greedy_run P cs @ [cs] else [])"

fun tails :: "string \<Rightarrow> string list" where
  "tails [] = [[]]"
| "tails (c # cs) = (c # cs) # tails cs"

fun piece_matches :: "piece \<Rightarrow> string \<Rightarrow> string list" where
  "piece_matches (Lit p) s = (case strip_prefix p s of Some r \<Rightarrow> [r] | None \<Rightarrow> [])"
| "piece_matches (OptLit p) s = (case strip_prefix p s of Some r \<Rightarrow> [r, s] | None \<Rightarrow> [s])"
| "piece_matches Spaces s = greedy_run is_space s"
| "piece_matches NotBraces s = greedy_run (\<lambda>c. c \<noteq> CHR ''}'') s"
| "piece_matches AnyLazy s = tails s"

fun matches :: "piece list \<Rightarrow> string \<Rightarrow> string list" where
  "matches [] s = [s]"
| "matches (a # as) s = concat (map (matches as) (piece_matches a s))"

definition first_match :: "piece list \<Rightarrow> string \<Rightarrow> string option" where
  "first_match rx s = (case matches rx s of [] \<Rightarrow> None | r # rs \<Rightarrow> Some r)"

text \<open>
  \<^verbatim>\<open>```ya?ml\s+title=(docker-)?compose\.ya?ml\r?\n([\s\S]*?)\n```\<close> (after \<open>^\<close>) and
  \<^verbatim>\<open>\{\{date:([^}]+)\}\}\<close>.
\<close>

definition yamlCodeBlock_expression :: "piece list" where
  "yamlCodeBlock_expression =
     [Lit ''```y'', OptLit ''a'', Lit ''ml'', Spaces, Lit ''title='', OptLit ''docker-'',
      Lit ''compose.y'', OptLit ''a'', Lit ''ml'', OptLit [CHR 0x0D], Lit [CHR 0x0A],
      AnyLazy, Lit ''\<newline>```'']"

definition dateFormat_expression :: "piece list" where
  "dateFormat_expression = [Lit ''{{date:'', NotBraces, Lit ''}}'']"

section \<open>The vault\<close>

text \<open>
  The host application owns the notes. Its vault is modelled as the list of its entries:
  files and folders, each with its path; a file has its text and the frontmatter that the
  host reads from it. \<open>frontmatter\<close> is \<open>None\<close> for a file on which the host's
  \<open>processFrontMatter\<close> throws. A frontmatter value is a string or a list of strings (the
  tags). The markdown files are the files whose path ends in \<open>.md\<close>. Reading and
  writing the text of a file that the vault holds do not fail.

  A promise is pending, rejected or resolved. \<open>Promise.all\<close> rejects when one of the
  promises does, stays pending when none rejects and one is pending, and else resolves
  with all the values.
\<close>

datatype fm_value = FmString string | FmList "string list"

type_synonym Frontmatter = "string \<Rightarrow> fm_value option"

datatype entry_kind = TFile | TFolder

record vault_entry =
  kind :: entry_kind
  path :: string
  fileText :: string
  frontmatter :: "Frontmatter option"

type_synonym vault = "vault_entry list"

datatype 'a promise = Pending | Rejected | Resolved 'a

fun promise_all :: "'a promise list \<Rightarrow> 'a list promise" where
  "promise_all [] = Resolved []"
| "promise_all (Rejected # ps) = Rejected"
| "promise_all (Pending # ps) = (case promise_all ps of Rejected \<Rightarrow> Rejected | _ \<Rightarrow> Pending)"
| "promise_all (Resolved x # ps) =
     (case promise_all ps of
        Rejected \<Rightarrow> Rejected
      | Pending \<Rightarrow> Pending
      | Resolved xs \<Rightarrow> Resolved (x # xs))"

definition endsWith :: "string \<Rightarrow> string \<Rightarrow> bool" where
  "endsWith s suf = startsWith (rev s) (rev suf)"

definition getAbstractFileByPath :: "vault \<Rightarrow> string \<Rightarrow> vault_entry option" where
  "getAbstractFileByPath v p = find (\<lambda>e. path e = p) v"

definition vault_getMarkdownFiles :: "vault \<Rightarrow> vault_entry list" where
  "vault_getMarkdownFiles v = filter (\<lambda>e. kind e = TFile \<and> endsWith (path e) ''.md'') v"

text \<open>
  What the host decides when a note is created: whether it accepts the path of a new file
  (the folder exists, the name is legal), the frontmatter it reads from the text of the new
  file, and whether \<open>processFrontMatter\<close> goes through when a property of the file at a
  path is set.
\<close>

record host =
  can_create :: "string \<Rightarrow> bool"
  parse_frontmatter :: "string \<Rightarrow> Frontmatter option"
  can_process :: "string \<Rightarrow> string \<Rightarrow> bool"

definition vault_create :: "host \<Rightarrow> vault \<Rightarrow> string \<Rightarrow> string \<Rightarrow> vault option" where
  "vault_create h v filePath noteContent =
     (if can_create h filePath \<and> getAbstractFileByPath v filePath = None then
        Some (v @ [\<lparr>kind = TFile, path = filePath, fileText = noteContent,
                    frontmatter = parse_frontmatter h noteContent\<rparr>])
      else None)"

section \<open>obsidian.ts: the notes\<close>

text \<open>\<open>getMarkdownFiles\<close>: the markdown files, under the folder of the settings when there is one.\<close>

definition getMarkdownFiles :: "DockerToObsiSettings \<Rightarrow> vault \<Rightarrow> vault_entry list" where
  "getMarkdownFiles st v =
     (if trim (folderPath st) = [] then vault_getMarkdownFiles v
      else filter (\<lambda>file. startsWith (path file) (trim (folderPath st))) (vault_getMarkdownFiles v))"

text \<open>
  \<open>getFrontmatter\<close> looks the file up by its path. When the path is not that of a file,
  the executor of the promise returns without resolving or rejecting it: the promise
  stays pending.
\<close>

definition getFrontmatter :: "vault \<Rightarrow> string \<Rightarrow> Frontmatter promise" where
  "getFrontmatter v filePath =
     (case getAbstractFileByPath v filePath of
        None \<Rightarrow> Pending
      | Some file \<Rightarrow>
          if kind file \<noteq> TFile then Pending
          else (case frontmatter file of None \<Rightarrow> Rejected | Some fm \<Rightarrow> Resolved fm))"

text \<open>
  \<open>setFrontmatterProperty\<close> on the file at a path: \<open>None\<close> when \<open>processFrontMatter\<close>
  throws, which it does when the host does not let it through or cannot read the
  frontmatter of the file.
\<close>

definition setFrontmatterProperty ::
  "host \<Rightarrow> vault \<Rightarrow> string \<Rightarrow> string \<Rightarrow> fm_value \<Rightarrow> vault option" where
  "setFrontmatterProperty h v filePath propertyName val =
     (case getAbstractFileByPath v filePath of
        None \<Rightarrow> None
      | Some file \<Rightarrow>
          (case frontmatter file of
             None \<Rightarrow> None
           | Some fm \<Rightarrow>
               if can_process h filePath propertyName then
                 Some (map (\<lambda>e. if path e = filePath
                                 then e\<lparr>frontmatter := Some (fm(propertyName \<mapsto> val))\<rparr> else e) v)
               else None))"

text \<open>\<open>new Map(stacks.map((stack) => [stack.name, stack.content]))\<close>: the entries are set one after the other.\<close>

definition stackMap :: "DockerStackFile list \<Rightarrow> string \<Rightarrow> string option" where
  "stackMap stacks = foldl (\<lambda>m stack. m(name stack \<mapsto> content stack)) Map.empty stacks"

text \<open>\<open>vault.modify(file, data)\<close>.\<close>

definition vault_modify :: "vault \<Rightarrow> vault_entry \<Rightarrow> string \<Rightarrow> vault" where
  "vault_modify v file data = map (\<lambda>e. if path e = path file then e\<lparr>fileText := data\<rparr> else e) v"

text \<open>
  The body of the loop of \<open>checkNotesForMatchingStacks\<close>, for one file: the new text of
  the note when it is updated (the body returns \<open>true\<close>), \<open>None\<close> when it is not (it
  returns \<open>false\<close>). A frontmatter that cannot be read is caught. A value that is a list
  is not a key of the map.
\<close>

definition sync_note ::
  "DockerToObsiSettings \<Rightarrow> vault \<Rightarrow> (string \<Rightarrow> string option) \<Rightarrow> vault_entry \<Rightarrow> string option promise" where
  "sync_note st v smap file =
     (case getFrontmatter v (path file) of
        Pending \<Rightarrow> Pending
      | Rejected \<Rightarrow> Resolved None
      | Resolved fm \<Rightarrow>
          Resolved
            (case fm (frontmatterProperty st) of
               None \<Rightarrow> None
             | Some (FmList l) \<Rightarrow> None
             | Some (FmString stackName) \<Rightarrow>
                 if stackName = [] then None
                 else
                   (case smap stackName of
                      None \<Rightarrow> None
                    | Some stackContent \<Rightarrow>
                        if stackContent = [] then None
                        else updateYamlCodeBlock (fileText file) stackContent)))"

text \<open>
  \<open>checkNotesForMatchingStacks\<close>: the number of notes updated, and the vault with the
  updated notes written.
\<close>

definition write_updates :: "vault \<Rightarrow> (vault_entry \<times> string option) list \<Rightarrow> vault" where
  "write_updates v updates =
     foldl (\<lambda>v' (file, r). case r of None \<Rightarrow> v' | Some data \<Rightarrow> vault_modify v' file data)
       v updates"

definition checkNotesForMatchingStacks ::
  "DockerToObsiSettings \<Rightarrow> vault \<Rightarrow> DockerStackFile list \<Rightarrow> (nat \<times> vault) promise" where
  "checkNotesForMatchingStacks st v stacks =
     (case promise_all (map (sync_note st v (stackMap stacks)) (getMarkdownFiles st v)) of
        Pending \<Rightarrow> Pending
      | Rejected \<Rightarrow> Rejected
      | Resolved results \<Rightarrow>
          Resolved (length (filter (\<lambda>r. r \<noteq> None) results),
                    write_updates v (zip (getMarkdownFiles st v) results)))"

text \<open>
  \<open>findMissingStacks\<close>. \<open>note_stack_name\<close> is what one note adds to the set
  \<open>existingStackNames\<close>: its value at the key when there is one that is not empty.
\<close>

definition note_stack_name ::
  "DockerToObsiSettings \<Rightarrow> vault \<Rightarrow> vault_entry \<Rightarrow> string option promise" where
  "note_stack_name st v file =
     (case getFrontmatter v (path file) of
        Pending \<Rightarrow> Pending
      | Rejected \<Rightarrow> Resolved None
      | Resolved fm \<Rightarrow>
          Resolved
            (case fm (frontmatterProperty st) of
               None \<Rightarrow> None
             | Some (FmList l) \<Rightarrow> None
             | Some (FmString stackName) \<Rightarrow> if stackName = [] then None else Some stackName))"

definition findMissingStacks ::
  "DockerToObsiSettings \<Rightarrow> vault \<Rightarrow> DockerStackFile list \<Rightarrow> DockerStackFile list promise" where
  "findMissingStacks st v stacks =
     (case promise_all (map (note_stack_name st v) (getMarkdownFiles st v)) of
        Pending \<Rightarrow> Pending
      | Rejected \<Rightarrow> Rejected
      | Resolved found \<Rightarrow>
          Resolved (filter (\<lambda>stack. Some (name stack) \<notin> set found) stacks))"

text \<open>
  \<open>createNotesFromTemplate\<close>. The paths of the vault are strings of the model; \<open>latin1\<close>
  is the string that a list of code units is when they are all below U+0100. A file name
  with a code unit beyond (a word of the stack's name starts with U+00B5 or U+00FF) gives
  a path, and then a vault, that the model does not have: the result is \<open>None\<close>.

  The function writes to the console when it returns early, when it skips a stack and
  when the processing of a stack fails; these messages are kept, in their order.

  \<open>create_note\<close> is the body of the loop, on the counter, the vault and the messages. A
  step that throws is caught at the end of the body, which leaves what the steps before it
  have done: the counter and the vault are those reached before the step. \<open>create_loop\<close>
  is the loop.
\<close>

datatype console_message =
  NoTemplatePath
| TemplateNotFound string
| AlreadyExists string
| FailedToCreate string

definition latin1 :: "nat list \<Rightarrow> string option" where
  "latin1 us = (if list_all (\<lambda>u. u < 256) us then Some (map char_of us) else None)"

text \<open>The path of a note: the file name, under the folder of the settings when there is one.\<close>

definition note_path :: "DockerToObsiSettings \<Rightarrow> string \<Rightarrow> string" where
  "note_path st fileName =
     (if trim (folderPath st) \<noteq> [] then trim (folderPath st) @ ''/'' @ fileName else fileName)"

type_synonym creation = "nat \<times> vault \<times> console_message list"

definition create_note ::
  "DockerToObsiSettings \<Rightarrow> host \<Rightarrow> moment \<Rightarrow> ai_api \<Rightarrow> string \<Rightarrow> bool \<Rightarrow>
     creation \<Rightarrow> DockerStackFile \<Rightarrow> creation option" where
  "create_note st h now api templateContent templateHasTags state stack =
     (let createdCount = fst state; v = fst (snd state); console = snd (snd state);
          failed = console @ [FailedToCreate (name stack)] in
      case processTemplate st now api templateContent stack of
        None \<Rightarrow> Some (createdCount, v, failed)
      | Some noteContent \<Rightarrow>
     (case generateFileName st now (name stack) of
        None \<Rightarrow> Some (createdCount, v, failed)
      | Some fileNameUnits \<Rightarrow>
     (case latin1 fileNameUnits of
        None \<Rightarrow> None
      | Some fileName \<Rightarrow>
     (let filePath = note_path st fileName in
      if getAbstractFileByPath v filePath \<noteq> None then
        Some (createdCount, v, console @ [AlreadyExists filePath])
      else
     (case vault_create h v filePath noteContent of
        None \<Rightarrow> Some (createdCount, v, failed)
      | Some v1 \<Rightarrow>
     (case setFrontmatterProperty h v1 filePath (frontmatterProperty st)
             (FmString (name stack)) of
        None \<Rightarrow> Some (createdCount, v1, failed)
      | Some v2 \<Rightarrow>
          if templateHasTags \<and> useAI st then
            (case setFrontmatterProperty h v2 filePath ''tags''
                    (FmList (fst (generateStackTags st api stack))) of
               None \<Rightarrow> Some (createdCount, v2, failed)
             | Some v3 \<Rightarrow> Some (createdCount + 1, v3, console))
          else Some (createdCount + 1, v2, console)))))))"

fun create_loop ::
  "(creation \<Rightarrow> DockerStackFile \<Rightarrow> creation option) \<Rightarrow>
     creation \<Rightarrow> DockerStackFile list \<Rightarrow> creation option" where
  "create_loop body state [] = Some state"
| "create_loop body state (stack # stacks) =
     (case body state stack of
        None \<Rightarrow> None
      | Some state' \<Rightarrow> create_loop body state' stacks)"

definition createNotesFromTemplate ::
  "DockerToObsiSettings \<Rightarrow> host \<Rightarrow> moment \<Rightarrow> ai_api \<Rightarrow> vault \<Rightarrow> DockerStackFile list \<Rightarrow>
     creation promise option" where
  "createNotesFromTemplate st h now api v stacks =
     (if trim (templateFilePath st) = [] then Some (Resolved (0, v, [NoTemplatePath]))
      else
        (case getAbstractFileByPath v (trim (templateFilePath st)) of
           None \<Rightarrow> Some (Resolved (0, v, [TemplateNotFound (trim (templateFilePath st))]))
         | Some templateFile \<Rightarrow>
             if kind templateFile \<noteq> TFile then
               Some (Resolved (0, v, [TemplateNotFound (trim (templateFilePath st))]))
             else
               (case getFrontmatter v (path templateFile) of
                  Pending \<Rightarrow> Some Pending
                | Rejected \<Rightarrow> Some Rejected
                | Resolved templateFrontmatter \<Rightarrow>
                    map_option Resolved
                      (create_loop (create_note st h now api (fileText templateFile)
                                      (templateFrontmatter ''tags'' \<noteq> None))
                         (0, v, []) stacks))))"

section \<open>Notions used to state the properties\<close>

text \<open>
  The value that a note has at the configured key, when its frontmatter can be read and
  the value is a string that is not empty.
\<close>

definition key_value :: "DockerToObsiSettings \<Rightarrow> vault_entry \<Rightarrow> string option" where
  "key_value st f =
     (case frontmatter f of
        None \<Rightarrow> None
      | Some fm \<Rightarrow>
          (case fm (frontmatterProperty st) of
             Some (FmString x) \<Rightarrow> if x = [] then None else Some x
           | _ \<Rightarrow> None))"

text \<open>
  The frontmatter values at the configured key across all candidate notes: every string
  that a candidate note with a readable frontmatter has at the key.
\<close>

definition frontmatter_values :: "DockerToObsiSettings \<Rightarrow> vault \<Rightarrow> string list" where
  "frontmatter_values st v =
     concat (map (\<lambda>f. case frontmatter f of
                          None \<Rightarrow> []
                        | Some fm \<Rightarrow>
                            (case fm (frontmatterProperty st) of
                               Some (FmString x) \<Rightarrow> [x]
                             | _ \<Rightarrow> []))
                 (getMarkdownFiles st v))"



text \<open>
  A matching step \<open>p\<close> reads only what it consumes: when it succeeds on a text, it has
  consumed a part \<open>h\<close> of it that satisfies \<open>P\<close>, and it consumes \<open>h\<close> again whatever
  follows \<open>h\<close>.
\<close>

definition reads_only :: "(string \<Rightarrow> bool) \<Rightarrow> (string \<Rightarrow> string option) \<Rightarrow> bool" where
  "reads_only P p = (\<forall>s r. p s = Some r \<longrightarrow> (\<exists>h. s = h @ r \<and> P h \<and> (\<forall>z. p (h @ z) = Some z)))"

text \<open>
  The replacement of the fenced blocks by a block \<open>B\<close> from a position on, \<open>pre\<close> being
  the text before the position: \<open>processYamlCodeBlocks\<close> is this from the start of the
  template, with the new block.
\<close>

definition replace_blocks :: "string \<Rightarrow> string \<Rightarrow> string \<Rightarrow> string" where
  "replace_blocks B pre s =
     regex_replace_all yamlCodeBlockRegex (\<lambda>pre matched cap post. B) pre s"




text \<open>
  A text \<open>s\<close> opens no occurrence of a token: it holds none, and it does not end with the
  start of one. A text \<open>c\<close> is clear of a token when no occurrence of the token can touch
  it, whatever is written before and after it: it opens none, it does not start with the
  end of one, and it is not a part of the token.
\<close>

definition opens_no :: "string \<Rightarrow> string \<Rightarrow> bool" where
  "opens_no tok s =
     (\<not> str_includes s tok \<and> list_all (\<lambda>k. \<not> endsWith s (take k tok)) [1..<length tok])"





text \<open>The messages about a stack whose processing failed, and about a stack that is skipped.\<close>

fun is_failure :: "console_message \<Rightarrow> bool" where
  "is_failure (FailedToCreate nm) = True"
| "is_failure m = False"

fun is_skip :: "console_message \<Rightarrow> bool" where
  "is_skip (AlreadyExists p) = True"
| "is_skip m = False"
section \<open>Facts about the string primitives\<close>

lemma strip_prefix_Some: "strip_prefix p s = Some r \<longleftrightarrow> s = p @ r"
  by (induction p s rule: strip_prefix.induct) auto

lemma strip_prefix_append: "strip_prefix p (p @ r) = Some r"
  by (simp add: strip_prefix_Some)

lemma strip_prefix_None: "strip_prefix p s = None \<longleftrightarrow> (\<forall>r. s \<noteq> p @ r)"
  using strip_prefix_Some [of p s] by (cases "strip_prefix p s") auto

lemma split_first_Some: "split_first pat s = Some (b, a) \<Longrightarrow> s = b @ pat @ a"
proof (induction s arbitrary: b)
  case Nil
  then show ?case by (auto split: if_splits)
next
  case (Cons c cs)
  then show ?case
    by (auto simp: strip_prefix_Some split: option.splits)
qed

lemma getSubstitution_no_dollar:
  "CHR ''$'' \<notin> set r \<Longrightarrow> getSubstitution b m a r = r"
  by (induction b m a r rule: getSubstitution.induct) auto

lemma strip_prefix_straddle:
  assumes "strip_prefix (d # w) (u @ d # w) = Some r" and "d \<notin> set w" and "u \<noteq> []"
  shows "\<exists>t. u = (d # w) @ t"
proof -
  from assms(1) have eq: "u @ d # w = (d # w) @ r" by (simp add: strip_prefix_Some)
  show ?thesis
  proof (cases "length u < length (d # w)")
    case True
    from assms(3) obtain c u' where u: "u = c # u'" by (cases u) auto
    with eq have e2: "u' @ d # w = w @ r" by simp
    from True u have lt: "length u' < length w" by simp
    have "(u' @ d # w) ! length u' = d" by simp
    moreover have "(w @ r) ! length u' = w ! length u'" using lt by (simp add: nth_append)
    ultimately have "d = w ! length u'" using e2 by metis
    then have "d \<in> set w" using lt by simp
    with assms(2) show ?thesis by simp
  next
    case False
    then have "length (d # w) \<le> length u" by simp
    with eq have "take (length (d # w)) u = d # w"
      by (metis append_eq_conv_conj take_append diff_is_0_eq take_0 append_Nil2)
    then show ?thesis by (metis append_take_drop_id)
  qed
qed

lemma split_first_None_prefix: "split_first pat s = None \<Longrightarrow> s \<noteq> pat @ t"
  by (cases s) (auto simp: strip_prefix_None split: option.splits if_splits)

lemma split_first_at_end:
  assumes "split_first (d # w) u = None" and "d \<notin> set w"
  shows "split_first (d # w) (u @ d # w) = Some (u, [])"
  using assms
proof (induction u)
  case Nil
  then show ?case by (simp add: strip_prefix_append[of "d # w" "[]", simplified])
next
  case (Cons c cs)
  from Cons.prems(1) have n1: "\<And>t. c # cs \<noteq> (d # w) @ t" by (rule split_first_None_prefix)
  have "strip_prefix (d # w) ((c # cs) @ d # w) = None"
  proof (rule ccontr)
    assume "strip_prefix (d # w) ((c # cs) @ d # w) \<noteq> None"
    then obtain r where "strip_prefix (d # w) ((c # cs) @ d # w) = Some r" by auto
    from strip_prefix_straddle[OF this Cons.prems(2)] n1 show False by blast
  qed
  moreover from Cons.prems(1) have "split_first (d # w) cs = None"
    by (auto split: option.splits)
  ultimately show ?case using Cons.IH Cons.prems(2) by simp
qed

lemma str_includes_iff: "str_includes s pat \<longleftrightarrow> (\<exists>b a. s = b @ pat @ a)"
proof
  assume "str_includes s pat"
  then obtain b a where "split_first pat s = Some (b, a)"
    by (auto simp: str_includes_def)
  then show "\<exists>b a. s = b @ pat @ a" by (blast dest: split_first_Some)
next
  assume "\<exists>b a. s = b @ pat @ a"
  then obtain b a where s: "s = b @ pat @ a" by blast
  have "split_first pat (b @ pat @ a) \<noteq> None"
  proof (induction b)
    case Nil
    have "strip_prefix pat (pat @ a) = Some a" by (rule strip_prefix_append)
    then show ?case
      by (cases "pat @ a") (auto split: option.splits)
  next
    case (Cons c b)
    then show ?case by (auto split: option.splits)
  qed
  with s show "str_includes s pat" by (simp add: str_includes_def)
qed

lemma not_includes_suffix:
  "\<not> str_includes (t @ u) pat \<Longrightarrow> strip_prefix pat u = None"
  by (metis str_includes_iff strip_prefix_None)

lemma not_includes_longer:
  "\<not> str_includes s p \<Longrightarrow> \<not> str_includes s (p @ q)"
  by (metis append.assoc str_includes_iff)

lemma split_on_not_Nil: "split_on d s \<noteq> []"
  by (induction s) (auto split: list.splits)

lemma split_on_none: "d \<notin> set s \<Longrightarrow> split_on d s = [s]"
  by (induction s) auto

lemma split_on_two: "1 < length (split_on d (a @ d # b))"
  using split_on_not_Nil [of d b]
  by (induction a) (auto split: list.splits)

lemma last_split_on_append: "last (split_on d (a @ d # b)) = last (split_on d b)"
proof (induction a)
  case Nil
  then show ?case by (simp add: split_on_not_Nil)
next
  case (Cons c a)
  show ?case
  proof (cases "c = d")
    case True
    then show ?thesis using Cons by (simp add: split_on_not_Nil)
  next
    case False
    obtain w ws where ws: "split_on d (a @ d # b) = w # ws"
      using split_on_not_Nil [of d "a @ d # b"] by (cases "split_on d (a @ d # b)") auto
    with split_on_two [of d a b] have "ws \<noteq> []" by auto
    with ws False Cons show ?thesis by simp
  qed
qed

lemma last_segment:
  assumes "d \<notin> set seg" and "parent = [] \<or> last parent = d"
  shows "pop (split_on d (parent @ seg)) = Some seg"
proof (cases "parent = []")
  case True
  with assms show ?thesis by (simp add: split_on_none pop_def)
next
  case False
  with assms(2) obtain p' where "parent = p' @ [d]"
    by (metis append_butlast_last_id)
  then have "last (split_on d (parent @ seg)) = seg"
    using last_split_on_append [of d p' seg] assms(1) by (simp add: split_on_none)
  then show ?thesis by (simp add: pop_def split_on_not_Nil)
qed

section \<open>Facts about replacement\<close>

lemma regex_replace_all_no_match:
  "(\<And>b t u. s = t @ u \<Longrightarrow> m b u = None) \<Longrightarrow> regex_replace_all m f pre s = s"
proof (induction s arbitrary: pre)
  case Nil
  then have "m pre [] = None" by simp
  then show ?case by (simp add: regex_replace_all.simps)
next
  case (Cons c cs)
  have "m pre (c # cs) = None" using Cons.prems [of "[]" "c # cs"] by simp
  moreover have "regex_replace_all m f (pre @ [c]) cs = cs"
  proof (rule Cons.IH)
    fix b t u assume "cs = t @ u"
    then have "c # cs = (c # t) @ u" by simp
    then show "m b u = None" by (rule Cons.prems)
  qed
  ultimately show ?case by (subst regex_replace_all.simps) simp
qed

lemma replace_literal_absent:
  assumes "\<not> str_includes s tok"
  shows "regex_replace_all (literal tok) f pre s = s"
proof (rule regex_replace_all_no_match)
  fix b t u assume "s = t @ u"
  with assms have "strip_prefix tok u = None" by (blast intro: not_includes_suffix)
  then show "literal tok b u = None" by (simp add: literal_def)
qed

lemma replace_dateFormat_absent:
  assumes "\<not> str_includes s ''{{date:''"
  shows "regex_replace_all dateFormatRegex f pre s = s"
proof (rule regex_replace_all_no_match)
  fix b t u assume "s = t @ u"
  with assms have "strip_prefix ''{{date:'' u = None" by (blast intro: not_includes_suffix)
  then show "dateFormatRegex b u = None" by (simp add: dateFormatRegex_def)
qed

lemma processDateVariables_absent:
  assumes "\<not> str_includes s ''{{date''" and "now ''YYYY/MM/DD'' = Some today"
  shows "processDateVariables now s = Some s"
proof -
  have 1: "\<not> str_includes s ''{{date:''"
    using not_includes_longer [OF assms(1), of "'':''"] by simp
  have 2: "\<not> str_includes s ''{{date}}''"
    using not_includes_longer [OF assms(1), of "''}}''"] by simp
  show ?thesis
    using assms(2) by (simp add: processDateVariables_def replace_dateFormat_absent [OF 1] replace_literal_absent [OF 2])
qed

section \<open>Facts about the vault and the promises\<close>

lemma find_by_path:
  "distinct (map path v) \<Longrightarrow> f \<in> set v \<Longrightarrow> find (\<lambda>e. path e = path f) v = Some f"
proof (induction v)
  case Nil
  then show ?case by simp
next
  case (Cons e v)
  then show ?case by (cases "path e = path f") (auto simp: image_iff)
qed

lemma getMarkdownFiles_subset: "f \<in> set (getMarkdownFiles st v) \<Longrightarrow> f \<in> set v \<and> kind f = TFile"
  by (auto simp: getMarkdownFiles_def vault_getMarkdownFiles_def split: if_splits)

lemma getFrontmatter_listed:
  assumes "distinct (map path v)" and "f \<in> set (getMarkdownFiles st v)"
  shows "getFrontmatter v (path f)
           = (case frontmatter f of None \<Rightarrow> Rejected | Some fm \<Rightarrow> Resolved fm)"
proof -
  from assms(2) have "f \<in> set v" and k: "kind f = TFile"
    by (auto dest: getMarkdownFiles_subset)
  with assms(1) have "getAbstractFileByPath v (path f) = Some f"
    by (simp add: getAbstractFileByPath_def find_by_path)
  with k show ?thesis by (simp add: getFrontmatter_def)
qed

lemma promise_all_map: "promise_all (map Resolved xs) = Resolved xs"
  by (induction xs) simp_all

lemma promise_all_ResolvedD: "promise_all ps = Resolved xs \<Longrightarrow> ps = map Resolved xs"
proof (induction ps arbitrary: xs)
  case Nil
  then show ?case by simp
next
  case (Cons p ps)
  show ?case
  proof (cases p)
    case Pending
    with Cons.prems show ?thesis by (simp split: promise.splits)
  next
    case Rejected
    with Cons.prems show ?thesis by simp
  next
    case (Resolved x)
    with Cons.prems obtain xs' where "promise_all ps = Resolved xs'" and "xs = x # xs'"
      by (cases "promise_all ps") auto
    with Cons.IH Resolved show ?thesis by simp
  qed
qed

lemma promise_all_map_Resolved:
  "(\<And>x. x \<in> set xs \<Longrightarrow> h x = Resolved (g x)) \<Longrightarrow> promise_all (map h xs) = Resolved (map g xs)"
proof -
  assume "\<And>x. x \<in> set xs \<Longrightarrow> h x = Resolved (g x)"
  then have "map h xs = map Resolved (map g xs)" by simp
  then show ?thesis by (simp only: promise_all_map)
qed

lemma note_stack_name_listed:
  assumes "distinct (map path v)" and "f \<in> set (getMarkdownFiles st v)"
  shows "note_stack_name st v f = Resolved (key_value st f)"
  by (simp add: note_stack_name_def key_value_def getFrontmatter_listed [OF assms]
      split: option.splits fm_value.splits)

lemma findMissingStacks_listed:
  assumes "distinct (map path v)"
  shows "findMissingStacks st v stacks
           = Resolved (filter (\<lambda>stack. Some (name stack) \<notin> key_value st ` set (getMarkdownFiles st v)) stacks)"
proof -
  have "promise_all (map (note_stack_name st v) (getMarkdownFiles st v))
          = Resolved (map (key_value st) (getMarkdownFiles st v))"
    by (rule promise_all_map_Resolved) (rule note_stack_name_listed [OF assms])
  then show ?thesis by (simp add: findMissingStacks_def)
qed


lemma stack_name_not_empty: "stack_name p \<noteq> []"
  by (simp add: stack_name_def split: option.splits)

lemma fetch_contents_names:
  "fetch_contents fetch ps = Some stacks \<Longrightarrow> map name stacks = map stack_name ps"
proof (induction ps arbitrary: stacks)
  case Nil
  then show ?case by simp
next
  case (Cons p ps)
  then show ?case by (auto simp: stack_of_def split: option.splits)
qed

lemma fetched_names_not_empty:
  assumes "fetchAllComposeStackFiles root fetch = Some stacks" and "s \<in> set stacks"
  shows "name s \<noteq> []"
proof -
  from assms(1) obtain ps where "fetch_contents fetch ps = Some stacks"
    by (auto simp: fetchAllComposeStackFiles_def split: option.splits)
  then have "map name stacks = map stack_name ps" by (rule fetch_contents_names)
  then have "name ` set stacks = stack_name ` set ps" by (metis set_map)
  with assms(2) show ?thesis using stack_name_not_empty by (metis imageE imageI)
qed

lemma key_value_in_values:
  "x \<noteq> [] \<Longrightarrow> Some x \<in> key_value st ` set fs \<longleftrightarrow>
     x \<in> set (concat (map (\<lambda>f. case frontmatter f of
                          None \<Rightarrow> []
                        | Some fm \<Rightarrow>
                            (case fm (frontmatterProperty st) of
                               Some (FmString x) \<Rightarrow> [x]
                             | _ \<Rightarrow> [])) fs))"
  by (induction fs) (auto simp: key_value_def split: option.splits fm_value.splits if_splits)

section \<open>Facts about the synchronisation of notes\<close>

lemma stackMap_snoc: "stackMap (xs @ [s]) = (stackMap xs)(name s \<mapsto> content s)"
  by (simp add: stackMap_def)

lemma stackMap_absent: "\<forall>y \<in> set xs. name y \<noteq> n \<Longrightarrow> stackMap xs n = None"
proof (induction xs rule: rev_induct)
  case Nil
  then show ?case by (simp add: stackMap_def)
next
  case (snoc x xs)
  then show ?case by (auto simp: stackMap_snoc)
qed

lemma stackMap_last:
  "name s = n \<Longrightarrow> \<forall>y \<in> set ys. name y \<noteq> n \<Longrightarrow> stackMap (xs @ s # ys) n = Some (content s)"
proof (induction ys rule: rev_induct)
  case Nil
  then show ?case by (simp add: stackMap_snoc)
next
  case (snoc y ys)
  have "stackMap (xs @ s # ys @ [y]) = (stackMap (xs @ s # ys))(name y \<mapsto> content y)"
    using stackMap_snoc [of "xs @ s # ys" y] by simp
  with snoc show ?case by auto
qed

lemma sync_note_listed:
  assumes "distinct (map path v)" and "f \<in> set (getMarkdownFiles st v)"
  shows "\<exists>r. sync_note st v smap f = Resolved r"
  by (simp add: sync_note_def getFrontmatter_listed [OF assms] split: option.splits)

lemma sync_note_value:
  assumes "distinct (map path v)" and "f \<in> set (getMarkdownFiles st v)"
    and "frontmatter f = Some fm" and "fm (frontmatterProperty st) = Some (FmString n)"
  shows "sync_note st v smap f =
           Resolved (if n = [] then None
                     else (case smap n of
                             None \<Rightarrow> None
                           | Some c \<Rightarrow> if c = [] then None else updateYamlCodeBlock (fileText f) c))"
  using assms(3,4) by (simp add: sync_note_def getFrontmatter_listed [OF assms(1,2)])

lemma promise_all_exists:
  "(\<And>x. x \<in> set xs \<Longrightarrow> \<exists>r. h x = Resolved r) \<Longrightarrow> \<exists>rs. promise_all (map h xs) = Resolved rs"
proof (induction xs)
  case Nil
  then show ?case by simp
next
  case (Cons x xs)
  then obtain r rs where "h x = Resolved r" and "promise_all (map h xs) = Resolved rs"
    by (metis list.set_intros(1) list.set_intros(2))
  then show ?case by simp
qed

lemma vault_modify_other: "e \<in> set v \<Longrightarrow> path f \<noteq> path e \<Longrightarrow> e \<in> set (vault_modify v f t)"
  by (auto simp: vault_modify_def)

lemma vault_modify_self: "e \<in> set v \<Longrightarrow> e\<lparr>fileText := t\<rparr> \<in> set (vault_modify v e t)"
  by (auto simp: vault_modify_def image_iff)

lemma write_updates_Cons:
  "write_updates v ((f, r) # ups)
     = write_updates (case r of None \<Rightarrow> v | Some t \<Rightarrow> vault_modify v f t) ups"
  by (simp add: write_updates_def)

lemma write_updates_keeps:
  "e \<in> set v \<Longrightarrow> (\<And>f t. (f, Some t) \<in> set ups \<Longrightarrow> path f \<noteq> path e)
     \<Longrightarrow> e \<in> set (write_updates v ups)"
proof (induction ups arbitrary: v)
  case Nil
  then show ?case by (simp add: write_updates_def)
next
  case (Cons u ups)
  obtain f r where u: "u = (f, r)" by (cases u)
  have "e \<in> set (case r of None \<Rightarrow> v | Some t \<Rightarrow> vault_modify v f t)"
  proof (cases r)
    case None
    with Cons.prems(1) show ?thesis by simp
  next
    case (Some t)
    with Cons.prems(2) [of f t] u have "path f \<noteq> path e" by simp
    with Cons.prems(1) Some show ?thesis by (simp add: vault_modify_other)
  qed
  moreover have "\<And>f t. (f, Some t) \<in> set ups \<Longrightarrow> path f \<noteq> path e"
  proof -
    fix f t assume "(f, Some t) \<in> set ups"
    then have "(f, Some t) \<in> set (u # ups)" by simp
    then show "path f \<noteq> path e" by (rule Cons.prems(2))
  qed
  ultimately show ?case unfolding u write_updates_Cons by (rule Cons.IH)
qed

lemma write_updates_applies:
  "distinct (map (\<lambda>u. path (fst u)) ups) \<Longrightarrow> e \<in> set v \<Longrightarrow> (e, Some t) \<in> set ups
     \<Longrightarrow> e\<lparr>fileText := t\<rparr> \<in> set (write_updates v ups)"
proof (induction ups arbitrary: v)
  case Nil
  then show ?case by simp
next
  case (Cons u ups)
  obtain f r where u: "u = (f, r)" by (cases u)
  from Cons.prems(1) u have nf: "\<And>g s. (g, s) \<in> set ups \<Longrightarrow> path g \<noteq> path f"
    by (auto simp: image_iff)
  from Cons.prems(1) have d: "distinct (map (\<lambda>u. path (fst u)) ups)" by simp
  show ?case
  proof (cases "u = (e, Some t)")
    case True
    with u have fe: "f = e" "r = Some t" by auto
    have "e\<lparr>fileText := t\<rparr> \<in> set (vault_modify v e t)"
      using Cons.prems(2) by (rule vault_modify_self)
    moreover have "\<And>g s. (g, Some s) \<in> set ups \<Longrightarrow> path g \<noteq> path (e\<lparr>fileText := t\<rparr>)"
      using nf fe by simp
    ultimately have "e\<lparr>fileText := t\<rparr> \<in> set (write_updates (vault_modify v e t) ups)"
      by (rule write_updates_keeps)
    then show ?thesis unfolding u write_updates_Cons fe by simp
  next
    case False
    with Cons.prems(3) have in_ups: "(e, Some t) \<in> set ups" by simp
    then have "path e \<noteq> path f" by (rule nf)
    then have "e \<in> set (case r of None \<Rightarrow> v | Some s \<Rightarrow> vault_modify v f s)"
      using Cons.prems(2) by (cases r) (simp_all add: vault_modify_other)
    then show ?thesis unfolding u write_updates_Cons using d in_ups
      by (intro Cons.IH)
  qed
qed

lemma getMarkdownFiles_distinct:
  "distinct (map path v) \<Longrightarrow> distinct (map path (getMarkdownFiles st v))"
  by (simp add: getMarkdownFiles_def vault_getMarkdownFiles_def distinct_map_filter)

lemma checkNotes_resolves:
  assumes "distinct (map path v)"
  shows "\<exists>results.
           map (sync_note st v (stackMap stacks)) (getMarkdownFiles st v) = map Resolved results
           \<and> checkNotesForMatchingStacks st v stacks
               = Resolved (length (filter (\<lambda>r. r \<noteq> None) results),
                           write_updates v (zip (getMarkdownFiles st v) results))"
proof -
  have "\<exists>rs. promise_all (map (sync_note st v (stackMap stacks)) (getMarkdownFiles st v)) = Resolved rs"
    by (rule promise_all_exists) (rule sync_note_listed [OF assms])
  then obtain rs where
    rs: "promise_all (map (sync_note st v (stackMap stacks)) (getMarkdownFiles st v)) = Resolved rs"
    by blast
  then have "map (sync_note st v (stackMap stacks)) (getMarkdownFiles st v) = map Resolved rs"
    by (rule promise_all_ResolvedD)
  with rs show ?thesis by (auto simp: checkNotesForMatchingStacks_def)
qed

lemma zip_map_results:
  assumes "map h fs = map Resolved rs"
  shows "(f, r) \<in> set (zip fs rs) \<longleftrightarrow> f \<in> set fs \<and> h f = Resolved r \<and> (f, r) \<in> set (zip fs rs)"
proof -
  have "(f, r) \<in> set (zip fs rs) \<Longrightarrow> h f = Resolved r"
    using assms
  proof (induction fs arbitrary: rs)
    case Nil
    then show ?case by simp
  next
    case (Cons a fs)
    then show ?case by (cases rs) auto
  qed
  then show ?thesis by (auto dest: set_zip_leftD)
qed

lemma zip_map_mem:
  assumes "map h fs = map Resolved rs" and "f \<in> set fs" and "h f = Resolved r"
  shows "(f, r) \<in> set (zip fs rs)"
  using assms
proof (induction fs arbitrary: rs)
  case Nil
  then show ?case by simp
next
  case (Cons a fs)
  then show ?case by (cases rs) auto
qed

lemma count_results:
  assumes "map h fs = map Resolved rs"
  shows "length (filter (\<lambda>r. r \<noteq> None) rs) = length (filter (\<lambda>f. h f \<noteq> Resolved None) fs)"
  using assms
proof (induction fs arbitrary: rs)
  case Nil
  then show ?case by simp
next
  case (Cons a fs)
  then show ?case by (cases rs) auto
qed


lemma map_path_zip:
  "length rs = length fs \<Longrightarrow> map (\<lambda>u. path (fst u)) (zip fs rs) = map path fs"
proof (induction fs arbitrary: rs)
  case Nil
  then show ?case by simp
next
  case (Cons f fs)
  then show ?case by (cases rs) simp_all
qed

lemma same_path_same_entry:
  "distinct (map path v) \<Longrightarrow> f \<in> set v \<Longrightarrow> g \<in> set v \<Longrightarrow> path f = path g \<Longrightarrow> f = g"
  by (metis distinct_map inj_onD)

lemma key_value_not_empty: "key_value st f \<noteq> Some []"
  by (simp add: key_value_def split: option.splits fm_value.splits)

lemma unmatched_note_stays:
  assumes d: "distinct (map path v)" and l: "file \<in> set (getMarkdownFiles st v)"
    and n: "sync_note st v (stackMap stacks) file = Resolved None"
  shows "\<exists>k v'. checkNotesForMatchingStacks st v stacks = Resolved (k, v')
           \<and> k = length (filter (\<lambda>f. sync_note st v (stackMap stacks) f \<noteq> Resolved None)
                          (getMarkdownFiles st v))
           \<and> file \<in> set v'"
proof -
  from checkNotes_resolves [OF d, of st stacks] obtain results where
    m: "map (sync_note st v (stackMap stacks)) (getMarkdownFiles st v) = map Resolved results"
    and c: "checkNotesForMatchingStacks st v stacks
               = Resolved (length (filter (\<lambda>r. r \<noteq> None) results),
                           write_updates v (zip (getMarkdownFiles st v) results))"
    by blast
  have fv: "file \<in> set v" using l by (simp add: getMarkdownFiles_subset)
  have "file \<in> set (write_updates v (zip (getMarkdownFiles st v) results))"
  proof (rule write_updates_keeps [OF fv])
    fix f t assume z: "(f, Some t) \<in> set (zip (getMarkdownFiles st v) results)"
    then have fl: "f \<in> set (getMarkdownFiles st v)"
      and fr: "sync_note st v (stackMap stacks) f = Resolved (Some t)"
      using zip_map_results [OF m, of f "Some t"] by blast+
    show "path f \<noteq> path file"
    proof
      assume "path f = path file"
      with d fl fv have "f = file"
        by (intro same_path_same_entry [of v]) (simp_all add: getMarkdownFiles_subset)
      with fr n show False by simp
    qed
  qed
  with c count_results [OF m] show ?thesis by simp
qed

lemma matched_note_written:
  assumes d: "distinct (map path v)" and l: "file \<in> set (getMarkdownFiles st v)"
    and n: "sync_note st v (stackMap stacks) file = Resolved (Some t)"
  shows "\<exists>k v'. checkNotesForMatchingStacks st v stacks = Resolved (k, v')
           \<and> file\<lparr>fileText := t\<rparr> \<in> set v'"
proof -
  from checkNotes_resolves [OF d, of st stacks] obtain results where
    m: "map (sync_note st v (stackMap stacks)) (getMarkdownFiles st v) = map Resolved results"
    and c: "checkNotesForMatchingStacks st v stacks
               = Resolved (length (filter (\<lambda>r. r \<noteq> None) results),
                           write_updates v (zip (getMarkdownFiles st v) results))"
    by blast
  have fv: "file \<in> set v" using l by (simp add: getMarkdownFiles_subset)
  have len: "length results = length (getMarkdownFiles st v)"
    using m by (metis length_map)
  have "distinct (map (\<lambda>u. path (fst u)) (zip (getMarkdownFiles st v) results))"
    using getMarkdownFiles_distinct [OF d, of st] by (simp only: map_path_zip [OF len])
  moreover have "(file, Some t) \<in> set (zip (getMarkdownFiles st v) results)"
    using m l n by (rule zip_map_mem)
  ultimately have "file\<lparr>fileText := t\<rparr> \<in> set (write_updates v (zip (getMarkdownFiles st v) results))"
    using fv by (intro write_updates_applies)
  with c show ?thesis by simp
qed

section \<open>Facts about the creation of notes\<close>

lemma find_append_new:
  "find P v = None \<Longrightarrow> P e \<Longrightarrow> find P (v @ [e]) = Some e"
  by (induction v) (auto split: if_splits)

lemma find_Some_holds: "find P v = Some e \<Longrightarrow> P e \<and> e \<in> set v"
  by (induction v) (auto split: if_splits)

lemma no_file_at: "getAbstractFileByPath w p = None \<Longrightarrow> e \<in> set w \<Longrightarrow> path e \<noteq> p"
  by (auto simp: getAbstractFileByPath_def find_None_iff)

lemma vault_create_Some:
  assumes "vault_create h w p c = Some v1"
  shows "v1 = w @ [\<lparr>kind = TFile, path = p, fileText = c, frontmatter = parse_frontmatter h c\<rparr>]"
    and "getAbstractFileByPath w p = None"
  using assms by (auto simp: vault_create_def split: if_splits)

text \<open>Writing a property of the file that has just been added, the last of the vault.\<close>

lemma setFrontmatterProperty_last:
  assumes "getAbstractFileByPath w p = None" and "path e = p"
  shows "setFrontmatterProperty h (w @ [e]) p k x
           = (case frontmatter e of
                None \<Rightarrow> None
              | Some fm \<Rightarrow>
                  if can_process h p k then Some (w @ [e\<lparr>frontmatter := Some (fm(k \<mapsto> x))\<rparr>])
                  else None)"
proof -
  have f: "getAbstractFileByPath (w @ [e]) p = Some e"
    using assms unfolding getAbstractFileByPath_def by (intro find_append_new) simp_all
  have m: "map (\<lambda>e'. if path e' = p then g e' else e') w = w" for g
    using no_file_at [OF assms(1)] by (induction w) (auto simp: getAbstractFileByPath_def split: if_splits)
  show ?thesis
    by (cases "frontmatter e") (simp_all add: setFrontmatterProperty_def f m assms(2))
qed

lemma setFrontmatterProperty_last_Some:
  assumes "getAbstractFileByPath w p = None" and "path e = p"
    and "setFrontmatterProperty h (w @ [e]) p k x = Some v2"
  shows "\<exists>e'. v2 = w @ [e'] \<and> path e' = p \<and> kind e' = kind e \<and> fileText e' = fileText e"
  using assms(3) unfolding setFrontmatterProperty_last [OF assms(1,2)]
  by (auto split: option.splits if_splits simp: assms(2))

text \<open>
  One turn of the loop. The stack is counted, and one file is added at the end of the
  vault, with the rendered template as its text; or it is skipped, with a message, and
  nothing changes; or its processing fails, with a message, after which the vault is as
  it was or has that one file more.
\<close>

lemma create_note_step:
  assumes "create_note st h now api tc tags (k, w, l) s = Some (k', w', l')"
  shows "(k' = k + 1 \<and> l' = l
           \<and> (\<exists>e. w' = w @ [e] \<and> kind e = TFile
                  \<and> processTemplate st now api tc s = Some (fileText e)))
     \<or> (k' = k \<and> w' = w \<and> (\<exists>p. l' = l @ [AlreadyExists p]))
     \<or> (k' = k \<and> l' = l @ [FailedToCreate (name s)]
           \<and> (w' = w \<or> (\<exists>e. w' = w @ [e] \<and> kind e = TFile
                  \<and> processTemplate st now api tc s = Some (fileText e))))"
proof (cases "processTemplate st now api tc s")
  case None
  with assms show ?thesis by (simp add: create_note_def Let_def)
next
  case c: (Some c)
  show ?thesis
  proof (cases "generateFileName st now (name s)")
    case None
    with assms c show ?thesis by (simp add: create_note_def Let_def)
  next
    case f: (Some f)
    show ?thesis
    proof (cases "latin1 f")
      case None
      with assms c f show ?thesis by (simp add: create_note_def Let_def)
    next
      case fn: (Some fn)
      define p where "p = note_path st fn"
      define failed where "failed = l @ [FailedToCreate (name s)]"
      have cn: "create_note st h now api tc tags (k, w, l) s
          = (if getAbstractFileByPath w p \<noteq> None then Some (k, w, l @ [AlreadyExists p])
             else case vault_create h w p c of
               None \<Rightarrow> Some (k, w, failed)
             | Some v1 \<Rightarrow>
                 (case setFrontmatterProperty h v1 p (frontmatterProperty st) (FmString (name s)) of
                    None \<Rightarrow> Some (k, v1, failed)
                  | Some v2 \<Rightarrow>
                      if tags \<and> useAI st then
                        (case setFrontmatterProperty h v2 p ''tags''
                                (FmList (fst (generateStackTags st api s))) of
                           None \<Rightarrow> Some (k, v2, failed)
                         | Some v3 \<Rightarrow> Some (k + 1, v3, l))
                      else Some (k + 1, v2, l)))"
        unfolding p_def failed_def by (simp add: create_note_def Let_def c f fn)
      show ?thesis
      proof (cases "getAbstractFileByPath w p = None")
        case False
        with assms cn show ?thesis by auto
      next
        case free: True
        show ?thesis
        proof (cases "vault_create h w p c")
          case None
          with assms cn free show ?thesis by (simp add: failed_def)
        next
          case (Some v1)
          define e where "e = \<lparr>kind = TFile, path = p, fileText = c, frontmatter = parse_frontmatter h c\<rparr>"
          from vault_create_Some(1) [OF Some] have v1: "v1 = w @ [e]" by (simp add: e_def)
          have pe: "path e = p" by (simp add: e_def)
          have ke: "kind e = TFile" "fileText e = c" by (simp_all add: e_def)
          show ?thesis
          proof (cases "setFrontmatterProperty h v1 p (frontmatterProperty st) (FmString (name s))")
            case None
            with assms cn free Some have "k' = k" "w' = v1" "l' = failed" by simp_all
            with v1 c ke show ?thesis by (simp add: failed_def)
          next
            case s2: (Some v2)
            from setFrontmatterProperty_last_Some [OF free pe s2 [unfolded v1]]
            obtain e2 where v2: "v2 = w @ [e2]" and pe2: "path e2 = p"
              and ke2: "kind e2 = TFile" "fileText e2 = c" using ke by auto
            show ?thesis
            proof (cases "tags \<and> useAI st")
              case False
              with assms cn free Some s2 have "k' = k + 1" "w' = v2" "l' = l" by auto
              with v2 c ke2 show ?thesis by simp
            next
              case True
              show ?thesis
              proof (cases "setFrontmatterProperty h v2 p ''tags''
                                (FmList (fst (generateStackTags st api s)))")
                case None
                with assms cn free Some s2 True have "k' = k" "w' = v2" "l' = failed" by simp_all
                with v2 c ke2 show ?thesis by (simp add: failed_def)
              next
                case s3: (Some v3)
                from setFrontmatterProperty_last_Some [OF free pe2 s3 [unfolded v2]]
                obtain e3 where v3: "v3 = w @ [e3]"
                  and ke3: "kind e3 = TFile" "fileText e3 = c" using ke2 by auto
                from assms cn free Some s2 True s3 have "k' = k + 1" "w' = v3" "l' = l" by simp_all
                with v3 c ke3 show ?thesis by simp
              qed
            qed
          qed
        qed
      qed
    qed
  qed
qed

text \<open>
  The loop: the files of the vault stay as they are and files are added after them; every
  stack is counted or has its message; a counted stack has its file, and the other added
  files are those of failed stacks.
\<close>

lemma create_loop_added:
  assumes "create_loop (create_note st h now api tc tags) (k, w, l) stacks = Some (k', w', l')"
  shows "\<exists>added msgs. w' = w @ added \<and> l' = l @ msgs
     \<and> k' + length msgs = k + length stacks
     \<and> (\<forall>m \<in> set msgs. is_skip m \<or> is_failure m)
     \<and> k' \<le> k + length added
     \<and> k + length added \<le> k' + length (filter is_failure msgs)
     \<and> (\<forall>e \<in> set added. kind e = TFile
           \<and> (\<exists>s \<in> set stacks. processTemplate st now api tc s = Some (fileText e)))"
  using assms
proof (induction stacks arbitrary: k w l)
  case Nil
  then show ?case by simp
next
  case (Cons s stacks)
  from Cons.prems obtain k1 w1 l1 where
    st1: "create_note st h now api tc tags (k, w, l) s = Some (k1, w1, l1)"
    and rest: "create_loop (create_note st h now api tc tags) (k1, w1, l1) stacks = Some (k', w', l')"
    by (auto split: option.splits)
  from Cons.IH [OF rest] obtain added msgs where a: "w' = w1 @ added" and m: "l' = l1 @ msgs"
    and n: "k' + length msgs = k1 + length stacks"
    and ms: "\<forall>m \<in> set msgs. is_skip m \<or> is_failure m"
    and lo: "k' \<le> k1 + length added"
    and hi: "k1 + length added \<le> k' + length (filter is_failure msgs)"
    and f: "\<forall>e \<in> set added. kind e = TFile
           \<and> (\<exists>s \<in> set stacks. processTemplate st now api tc s = Some (fileText e))"
    by blast
  from create_note_step [OF st1] consider
    (counted) e where "k1 = k + 1" "l1 = l" "w1 = w @ [e]" "kind e = TFile"
      "processTemplate st now api tc s = Some (fileText e)"
  | (skipped) p where "k1 = k" "w1 = w" "l1 = l @ [AlreadyExists p]"
  | (failed) "k1 = k" "l1 = l @ [FailedToCreate (name s)]" "w1 = w"
  | (failed_after) e where "k1 = k" "l1 = l @ [FailedToCreate (name s)]" "w1 = w @ [e]"
      "kind e = TFile" "processTemplate st now api tc s = Some (fileText e)"
    by blast
  then show ?case
  proof cases
    case counted
    with a m n ms lo hi f show ?thesis
      by (intro exI [of _ "e # added"] exI [of _ msgs]) auto
  next
    case skipped
    with a m n ms lo hi f show ?thesis
      by (intro exI [of _ added] exI [of _ "AlreadyExists p # msgs"]) auto
  next
    case failed
    with a m n ms lo hi f show ?thesis
      by (intro exI [of _ added] exI [of _ "FailedToCreate (name s) # msgs"]) auto
  next
    case failed_after
    with a m n ms lo hi f show ?thesis
      by (intro exI [of _ "e # added"] exI [of _ "FailedToCreate (name s) # msgs"]) auto
  qed
qed

text \<open>The file names that are strings of the model.\<close>

lemma units_small: "list_all (\<lambda>u. u < 256) (units s)"
  by (induction s) (simp_all add: units_def)

lemma latin1_units: "latin1 (units s) = Some s"
proof -
  have "map char_of (units s) = s"
    by (induction s) (simp_all add: units_def)
  with units_small [of s] show ?thesis by (simp add: latin1_def)
qed

lemma latin1_small: "latin1 us \<noteq> None \<longleftrightarrow> list_all (\<lambda>u. u < 256) us"
  by (simp add: latin1_def)

lemma generateFileName_latin1:
  assumes "generateFileName st now nm = Some f" and "latin1 (capitalizeStackName nm) \<noteq> None"
  shows "latin1 f \<noteq> None"
proof -
  from assms(2) have "list_all (\<lambda>u. u < 256) (capitalizeStackName nm)"
    by (simp only: latin1_small)
  with assms(1) have "list_all (\<lambda>u. u < 256) f"
    by (auto simp: generateFileName_def Let_def units_small split: option.splits if_splits)
  then show ?thesis by (simp only: latin1_small)
qed

lemma create_note_returns:
  assumes "latin1 (capitalizeStackName (name s)) \<noteq> None"
  shows "create_note st h now api tc tags state s \<noteq> None"
proof (cases "generateFileName st now (name s)")
  case None
  then show ?thesis by (simp add: create_note_def Let_def split: option.splits)
next
  case (Some f)
  from generateFileName_latin1 [OF Some assms] obtain fn where "latin1 f = Some fn" by auto
  with Some show ?thesis by (simp add: create_note_def Let_def split: option.splits)
qed

lemma create_loop_returns:
  assumes "\<forall>s \<in> set stacks. latin1 (capitalizeStackName (name s)) \<noteq> None"
  shows "create_loop (create_note st h now api tc tags) state stacks \<noteq> None"
  using assms
proof (induction stacks arbitrary: state)
  case Nil
  then show ?case by simp
next
  case (Cons s stacks)
  from Cons.prems have "create_note st h now api tc tags state s \<noteq> None"
    by (intro create_note_returns) simp
  then obtain state' where "create_note st h now api tc tags state s = Some state'" by auto
  moreover from Cons have "create_loop (create_note st h now api tc tags) state' stacks \<noteq> None"
    by simp
  ultimately show ?case by simp
qed

lemma template_frontmatter:
  assumes "getAbstractFileByPath v p = Some tf" and "kind tf = TFile"
  shows "getFrontmatter v (path tf)
           = (case frontmatter tf of None \<Rightarrow> Rejected | Some fm \<Rightarrow> Resolved fm)"
proof -
  from assms(1) have "path tf = p"
    unfolding getAbstractFileByPath_def by (auto dest: find_Some_holds)
  with assms show ?thesis by (simp add: getFrontmatter_def)
qed

lemma create_note_skip:
  assumes "processTemplate st now api tc s = Some c" and "generateFileName st now (name s) = Some f"
    and "latin1 f = Some fn" and "getAbstractFileByPath w (note_path st fn) \<noteq> None"
  shows "create_note st h now api tc tags (k, w, l) s
           = Some (k, w, l @ [AlreadyExists (note_path st fn)])"
  using assms by (simp add: create_note_def Let_def)

lemma create_note_failed:
  assumes "processTemplate st now api tc s = None \<or> generateFileName st now (name s) = None
     \<or> (\<exists>c f fn. processTemplate st now api tc s = Some c \<and> generateFileName st now (name s) = Some f
           \<and> latin1 f = Some fn \<and> getAbstractFileByPath w (note_path st fn) = None
           \<and> vault_create h w (note_path st fn) c = None)"
  shows "create_note st h now api tc tags (k, w, l) s = Some (k, w, l @ [FailedToCreate (name s)])"
  using assms by (auto simp: create_note_def Let_def split: option.splits)

lemma create_note_uncounted:
  assumes "processTemplate st now api tc s = Some c" and "generateFileName st now (name s) = Some f"
    and "latin1 f = Some fn" and "vault_create h w (note_path st fn) c = Some v1"
    and "setFrontmatterProperty h v1 (note_path st fn) (frontmatterProperty st)
           (FmString (name s)) = None"
  shows "create_note st h now api tc tags (k, w, l) s = Some (k, v1, l @ [FailedToCreate (name s)])"
proof -
  from vault_create_Some(2) [OF assms(4)]
  have free: "getAbstractFileByPath w (note_path st fn) = None" .
  with assms show ?thesis by (simp add: create_note_def Let_def)
qed

lemma createNotesFromTemplate_loop:
  assumes "trim (templateFilePath st) \<noteq> []"
    and "getAbstractFileByPath v (trim (templateFilePath st)) = Some tf" and "kind tf = TFile"
  shows "createNotesFromTemplate st h now api v stacks
           = (case frontmatter tf of
                None \<Rightarrow> Some Rejected
              | Some fm \<Rightarrow>
                  map_option Resolved
                    (create_loop (create_note st h now api (fileText tf) (fm ''tags'' \<noteq> None))
                       (0, v, []) stacks))"
  using assms template_frontmatter [OF assms(2,3)]
  by (cases "frontmatter tf") (simp_all add: createNotesFromTemplate_def)

lemma createNotesFromTemplate_settles:
  assumes "\<forall>s \<in> set stacks. latin1 (capitalizeStackName (name s)) \<noteq> None"
  shows "(\<exists>n v' l. createNotesFromTemplate st h now api v stacks = Some (Resolved (n, v', l)))
     \<or> (createNotesFromTemplate st h now api v stacks = Some Rejected
          \<and> (\<exists>tf. getAbstractFileByPath v (trim (templateFilePath st)) = Some tf
                 \<and> kind tf = TFile \<and> frontmatter tf = None))"
proof (cases "trim (templateFilePath st) = []")
  case True
  then show ?thesis by (simp add: createNotesFromTemplate_def)
next
  case ne: False
  show ?thesis
  proof (cases "getAbstractFileByPath v (trim (templateFilePath st))")
    case None
    with ne show ?thesis by (simp add: createNotesFromTemplate_def)
  next
    case (Some tf)
    show ?thesis
    proof (cases "kind tf = TFile")
      case False
      with ne Some show ?thesis by (simp add: createNotesFromTemplate_def)
    next
      case True
      note g = createNotesFromTemplate_loop [OF ne Some True]
      show ?thesis
      proof (cases "frontmatter tf")
        case None
        with Some True g show ?thesis by simp
      next
        case fm: (Some fm)
        from create_loop_returns [OF assms]
        obtain r where "create_loop (create_note st h now api (fileText tf) (fm ''tags'' \<noteq> None))
            (0, v, []) stacks = Some r" by blast
        with g fm have "createNotesFromTemplate st h now api v stacks = Some (Resolved r)"
          by simp
        then show ?thesis by (cases r) auto
      qed
    qed
  qed
qed

section \<open>Facts about the replacement of tokens\<close>


lemma strip_prefix_shorter:
  "strip_prefix tok s = Some rest \<Longrightarrow> tok \<noteq> [] \<Longrightarrow> length rest < length s"
  by (auto simp: strip_prefix_Some)

lemma replace_literal_match:
  assumes "strip_prefix tok s = Some rest" and "tok \<noteq> []"
  shows "regex_replace_all (literal tok) f pre s
           = f pre tok () rest @ regex_replace_all (literal tok) f (pre @ tok) rest"
proof -
  from assms have l: "length rest < length s" by (rule strip_prefix_shorter)
  from assms(1) have s: "s = tok @ rest" by (simp add: strip_prefix_Some)
  then have t: "take (length s - length rest) s = tok" by simp
  show ?thesis
    by (subst regex_replace_all.simps) (simp add: literal_def assms(1) l t)
qed

lemma replace_literal_skip:
  assumes "strip_prefix tok (c # cs) = None"
  shows "regex_replace_all (literal tok) f pre (c # cs)
           = c # regex_replace_all (literal tok) f (pre @ [c]) cs"
  by (subst regex_replace_all.simps) (simp add: literal_def assms)



lemma str_includes_append_left: "str_includes b p \<Longrightarrow> str_includes (a @ b) p"
  by (metis append.assoc str_includes_iff)

lemma str_includes_prefix: "str_includes (p @ b) p"
  by (metis append_Nil str_includes_iff)

lemma substitute_includes:
  assumes "tok \<noteq> []"
  shows "str_includes s tok \<Longrightarrow> str_includes (regex_replace_all (literal tok) (\<lambda>pre matched cap post. c) pre s) c"
proof (induction s arbitrary: pre)
  case Nil
  then have "strip_prefix tok [] \<noteq> None"
    by (simp add: str_includes_def split: if_splits)
  with assms show ?case by (cases tok) simp_all
next
  case (Cons x xs)
  show ?case
  proof (cases "strip_prefix tok (x # xs)")
    case (Some rest)
    show ?thesis
      by (simp only: replace_literal_match [OF Some assms] str_includes_prefix)
  next
    case None
    with Cons.prems have "str_includes xs tok"
      by (auto simp: str_includes_def)
    then have "str_includes (regex_replace_all (literal tok) (\<lambda>pre matched cap post. c) (pre @ [x]) xs) c"
      by (rule Cons.IH)
    then have "str_includes ([x] @ regex_replace_all (literal tok) (\<lambda>pre matched cap post. c) (pre @ [x]) xs) c"
      by (rule str_includes_append_left)
    then show ?thesis by (simp add: replace_literal_skip [OF None])
  qed
qed

lemma fillPlaceholders_none:
  assumes "\<not> str_includes t ''{{date''" and "\<not> str_includes t ''{{stackName}}''"
    and "\<not> str_includes t ''{{about}}''" and "now ''YYYY/MM/DD'' \<noteq> None"
  shows "fillPlaceholders st now api stack t = Some t"
proof -
  from assms(4) obtain today where "now ''YYYY/MM/DD'' = Some today" by auto
  with assms(1) have "processDateVariables now t = Some t" by (rule processDateVariables_absent)
  then show ?thesis
    by (simp add: fillPlaceholders_def replace_literal_absent [OF assms(2)] replace_literal_absent [OF assms(3)])
qed

section \<open>Facts about the header of a fenced block\<close>

lemma reads_only_bind:
  assumes "reads_only P p" and "reads_only Q q"
  shows "reads_only (\<lambda>h. \<exists>h1 h2. h = h1 @ h2 \<and> P h1 \<and> Q h2) (\<lambda>s. Option.bind (p s) q)"
  unfolding reads_only_def
proof (intro allI impI)
  fix s r assume "Option.bind (p s) q = Some r"
  then obtain r1 where p: "p s = Some r1" and q: "q r1 = Some r"
    by (cases "p s") auto
  from assms(1) p obtain h1 where h1: "s = h1 @ r1" "P h1" "\<forall>z. p (h1 @ z) = Some z"
    unfolding reads_only_def by blast
  from assms(2) q obtain h2 where h2: "r1 = h2 @ r" "Q h2" "\<forall>z. q (h2 @ z) = Some z"
    unfolding reads_only_def by blast
  have "\<forall>z. Option.bind (p ((h1 @ h2) @ z)) q = Some z"
    using h1(3) h2(3) by simp
  with h1 h2 show "\<exists>h. s = h @ r \<and> (\<exists>h1 h2. h = h1 @ h2 \<and> P h1 \<and> Q h2)
           \<and> (\<forall>z. Option.bind (p (h @ z)) q = Some z)"
    by (intro exI [of _ "h1 @ h2"]) auto
qed

lemma reads_only_mono:
  "reads_only P p \<Longrightarrow> (\<And>h. P h \<Longrightarrow> Q h) \<Longrightarrow> reads_only Q p"
  unfolding reads_only_def by blast

lemma reads_only_lit: "reads_only (\<lambda>h. h = tok) (strip_prefix tok)"
  unfolding reads_only_def by (auto simp: strip_prefix_Some)

lemma strip_prefix_hd: "p \<noteq> [] \<Longrightarrow> q \<noteq> [] \<Longrightarrow> hd p \<noteq> hd q \<Longrightarrow> strip_prefix p (q @ z) = None"
  by (cases p; cases q) auto

lemma reads_only_opt_lit:
  assumes "p \<noteq> []" and "q \<noteq> []" and "hd p \<noteq> hd q"
  shows "reads_only (\<lambda>h. h = p @ q \<or> h = q) (opt_lit p q)"
  unfolding reads_only_def
proof (intro allI impI)
  fix s r assume a: "opt_lit p q s = Some r"
  show "\<exists>h. s = h @ r \<and> (h = p @ q \<or> h = q) \<and> (\<forall>z. opt_lit p q (h @ z) = Some z)"
  proof (cases "strip_prefix p s")
    case None
    with a have "s = q @ r" by (simp add: opt_lit_def opt_prefix_def strip_prefix_Some)
    moreover have "\<forall>z. opt_lit p q (q @ z) = Some z"
      by (simp add: opt_lit_def opt_prefix_def strip_prefix_hd [OF assms] strip_prefix_append)
    ultimately show ?thesis by blast
  next
    case (Some s')
    with a have "s = (p @ q) @ r" by (simp add: opt_lit_def opt_prefix_def strip_prefix_Some)
    moreover have "\<forall>z. opt_lit p q ((p @ q) @ z) = Some z"
      by (simp add: opt_lit_def opt_prefix_def strip_prefix_append)
    ultimately show ?thesis by blast
  qed
qed

lemma reads_only_spaces_lit:
  assumes "q \<noteq> []" and "\<not> is_space (hd q)"
  shows "reads_only (\<lambda>h. \<exists>ws. h = ws @ q \<and> (\<forall>c \<in> set ws. is_space c)) (spaces_lit q)"
  unfolding reads_only_def
proof (intro allI impI)
  fix s r assume a: "spaces_lit q s = Some r"
  let ?ws = "takeWhile is_space s"
  from a have ne: "?ws \<noteq> []" and d: "dropWhile is_space s = q @ r"
    by (auto simp: spaces_lit_def strip_prefix_Some split: if_splits)
  have s: "s = (?ws @ q) @ r" using d by (metis append.assoc takeWhile_dropWhile_id)
  have all: "\<forall>c \<in> set ?ws. is_space c" by (auto dest: set_takeWhileD)
  from assms obtain c q' where q: "q = c # q'" and c: "\<not> is_space c" by (cases q) auto
  have "\<forall>z. spaces_lit q ((?ws @ q) @ z) = Some z"
  proof
    fix z
    have t: "takeWhile is_space (?ws @ c # q' @ z) = ?ws"
      using all c by (simp add: takeWhile_tail)
    have dr: "dropWhile is_space (?ws @ c # q' @ z) = c # q' @ z"
      using all c by (simp add: dropWhile_append3)
    show "spaces_lit q ((?ws @ q) @ z) = Some z"
      using t dr ne strip_prefix_append [of q z] by (simp add: spaces_lit_def q)
  qed
  with s all show "\<exists>h. s = h @ r \<and> (\<exists>ws. h = ws @ q \<and> (\<forall>c \<in> set ws. is_space c))
      \<and> (\<forall>z. spaces_lit q (h @ z) = Some z)"
    by blast
qed

lemma tick_not_space: "\<not> is_space (CHR 0x60)"
  by (simp add: is_space_def)

lemma reads_only_after:
  assumes "reads_only (\<lambda>h. \<exists>h'. h = t @ h' \<and> CHR 0x60 \<notin> set h') p"
    and "reads_only (\<lambda>h. CHR 0x60 \<notin> set h) q"
  shows "reads_only (\<lambda>h. \<exists>h'. h = t @ h' \<and> CHR 0x60 \<notin> set h') (\<lambda>s. Option.bind (p s) q)"
proof (rule reads_only_mono [OF reads_only_bind [OF assms]])
  fix h assume "\<exists>h1 h2. h = h1 @ h2 \<and> (\<exists>h'. h1 = t @ h' \<and> CHR 0x60 \<notin> set h') \<and> CHR 0x60 \<notin> set h2"
  then obtain h' h2 where "h = t @ (h' @ h2)" and "CHR 0x60 \<notin> set (h' @ h2)" by auto
  then show "\<exists>h'. h = t @ h' \<and> CHR 0x60 \<notin> set h'" by blast
qed

lemma reads_only_start:
  "reads_only (\<lambda>h. \<exists>h'. h = t @ h' \<and> CHR 0x60 \<notin> set h') (strip_prefix t)"
  by (rule reads_only_mono [OF reads_only_lit]) simp

lemma opt_lit_free:
  assumes "p \<noteq> []" and "q \<noteq> []" and "hd p \<noteq> hd q"
    and "CHR 0x60 \<notin> set p" and "CHR 0x60 \<notin> set q"
  shows "reads_only (\<lambda>h. CHR 0x60 \<notin> set h) (opt_lit p q)"
  by (rule reads_only_mono [OF reads_only_opt_lit [OF assms(1-3)]]) (use assms(4,5) in auto)

lemma spaces_lit_free:
  assumes "q \<noteq> []" and "\<not> is_space (hd q)" and "CHR 0x60 \<notin> set q"
  shows "reads_only (\<lambda>h. CHR 0x60 \<notin> set h) (spaces_lit q)"
proof (rule reads_only_mono [OF reads_only_spaces_lit [OF assms(1,2)]])
  fix h assume "\<exists>ws. h = ws @ q \<and> (\<forall>c\<in>set ws. is_space c)"
  then obtain ws where h: "h = ws @ q" and ws: "\<forall>c\<in>set ws. is_space c" by blast
  from ws tick_not_space have "CHR 0x60 \<notin> set ws" by blast
  with h assms(3) show "CHR 0x60 \<notin> set h" by simp
qed

lemma yaml_header_reads:
  "reads_only (\<lambda>h. \<exists>h'. h = ''```y'' @ h' \<and> CHR 0x60 \<notin> set h') yaml_header"
proof -
  have 1: "reads_only (\<lambda>h. CHR 0x60 \<notin> set h) (opt_lit ''a'' ''ml'')"
    by (rule opt_lit_free) simp_all
  have 2: "reads_only (\<lambda>h. CHR 0x60 \<notin> set h) (spaces_lit ''title='')"
    by (rule spaces_lit_free) (simp_all add: is_space_def)
  have 3: "reads_only (\<lambda>h. CHR 0x60 \<notin> set h) (opt_lit ''docker-'' ''compose.y'')"
    by (rule opt_lit_free) simp_all
  have 4: "reads_only (\<lambda>h. CHR 0x60 \<notin> set h) (opt_lit [CHR 0x0D] [CHR 0x0A])"
    by (rule opt_lit_free) simp_all
  have "reads_only (\<lambda>h. \<exists>h'. h = ''```y'' @ h' \<and> CHR 0x60 \<notin> set h') (\<lambda>s. yaml_header s)"
    unfolding yaml_header_def
    by (intro reads_only_after reads_only_start 1 2 3 4)
  then show ?thesis .
qed

lemma yaml_header_SomeD:
  assumes "yaml_header s = Some r"
  shows "\<exists>h. s = ''```y'' @ h @ r \<and> CHR 0x60 \<notin> set h \<and> (\<forall>z. yaml_header (''```y'' @ h @ z) = Some z)"
proof -
  from yaml_header_reads assms obtain hh where hh: "s = hh @ r"
    and t: "\<exists>h'. hh = ''```y'' @ h' \<and> CHR 0x60 \<notin> set h'"
    and z: "\<forall>z. yaml_header (hh @ z) = Some z"
    unfolding reads_only_def by blast
  from t obtain h' where h': "hh = ''```y'' @ h'" "CHR 0x60 \<notin> set h'" by blast
  from z h' have "\<forall>z. yaml_header (''```y'' @ h' @ z) = Some z" by simp
  moreover from hh h' have "s = ''```y'' @ h' @ r" by simp
  ultimately show ?thesis using h'(2) by blast
qed

section \<open>Facts about the fenced blocks\<close>

lemma prefix_of_append:
  "a @ z = p @ r \<Longrightarrow> length p \<le> length a \<Longrightarrow> \<exists>t. a = p @ t"
  by (auto simp: append_eq_append_conv2)

lemma split_first_append:
  "split_first pat s = Some (b, a) \<Longrightarrow> split_first pat (s @ z) = Some (b, a @ z)"
proof (induction s arbitrary: b)
  case Nil
  then have "pat = []" "b = []" "a = []" by (auto split: if_splits)
  then show ?case by (cases z) simp_all
next
  case (Cons c cs)
  show ?case
  proof (cases "strip_prefix pat (c # cs)")
    case (Some r)
    with Cons.prems have "b = []" "a = r" by simp_all
    moreover from Some have "strip_prefix pat ((c # cs) @ z) = Some (r @ z)"
      by (simp add: strip_prefix_Some)
    ultimately show ?thesis by simp
  next
    case None
    with Cons.prems obtain b' where b': "split_first pat cs = Some (b', a)" and b: "b = c # b'"
      by auto
    from b' have cs: "cs = b' @ pat @ a" by (rule split_first_Some)
    have "strip_prefix pat ((c # cs) @ z) = None"
    proof (rule ccontr)
      assume "strip_prefix pat ((c # cs) @ z) \<noteq> None"
      then obtain r where "(c # cs) @ z = pat @ r" by (auto simp: strip_prefix_Some)
      moreover have "length pat \<le> length (c # cs)" using cs by simp
      ultimately obtain t where "c # cs = pat @ t"
        by (blast dest: prefix_of_append)
      with None show False by (simp add: strip_prefix_None)
    qed
    with Cons.IH [OF b'] b show ?thesis by simp
  qed
qed

lemma strip_prefix_straddle_tail:
  assumes "strip_prefix (d # w) (u @ d # w @ z) = Some r" and "d \<notin> set w" and "u \<noteq> []"
  shows "\<exists>t. u = (d # w) @ t"
proof -
  from assms(1) have eq: "u @ d # w @ z = (d # w) @ r" by (simp add: strip_prefix_Some)
  show ?thesis
  proof (cases "length u < length (d # w)")
    case True
    from assms(3) obtain c u' where u: "u = c # u'" by (cases u) auto
    with eq have e2: "u' @ d # w @ z = w @ r" by simp
    from True u have lt: "length u' < length w" by simp
    have "(u' @ d # w @ z) ! length u' = d" by simp
    moreover have "(w @ r) ! length u' = w ! length u'" using lt by (simp add: nth_append)
    ultimately have "d = w ! length u'" using e2 by metis
    then have "d \<in> set w" using lt by simp
    with assms(2) show ?thesis by simp
  next
    case False
    then have "length (d # w) \<le> length u" by simp
    with eq show ?thesis by (blast dest: prefix_of_append)
  qed
qed

lemma split_first_at:
  assumes "split_first (d # w) u = None" and "d \<notin> set w"
  shows "split_first (d # w) (u @ d # w @ z) = Some (u, z)"
  using assms
proof (induction u)
  case Nil
  then show ?case by (simp add: strip_prefix_append [of "d # w" z, simplified])
next
  case (Cons c cs)
  from Cons.prems(1) have n1: "\<And>t. c # cs \<noteq> (d # w) @ t" by (rule split_first_None_prefix)
  have "strip_prefix (d # w) ((c # cs) @ d # w @ z) = None"
  proof (rule ccontr)
    assume "strip_prefix (d # w) ((c # cs) @ d # w @ z) \<noteq> None"
    then obtain r where "strip_prefix (d # w) ((c # cs) @ d # w @ z) = Some r" by auto
    from strip_prefix_straddle_tail [OF this Cons.prems(2)] n1 show False by blast
  qed
  moreover from Cons.prems(1) have "split_first (d # w) cs = None"
    by (auto split: option.splits)
  ultimately show ?case using Cons.IH Cons.prems(2) by simp
qed

lemma yamlCodeBlockRegex_SomeD:
  assumes "yamlCodeBlockRegex pre s = Some (cap, rest)"
  shows "line_start pre \<and> (\<exists>h b. s = ''```y'' @ h @ b @ ''\<newline>```'' @ rest \<and> CHR 0x60 \<notin> set h
           \<and> (\<forall>z. yaml_header (''```y'' @ h @ z) = Some z)
           \<and> split_first ''\<newline>```'' (b @ ''\<newline>```'' @ rest) = Some (b, rest))"
proof -
  from assms have ls: "line_start pre" by (simp add: yamlCodeBlockRegex_def split: if_splits)
  with assms obtain body b where hd: "yaml_header s = Some body"
    and sp: "split_first ''\<newline>```'' body = Some (b, rest)"
    by (auto simp: yamlCodeBlockRegex_def split: option.splits)
  from sp have body: "body = b @ ''\<newline>```'' @ rest" by (rule split_first_Some)
  from yaml_header_SomeD [OF hd] obtain h where "s = ''```y'' @ h @ body" "CHR 0x60 \<notin> set h"
    "\<forall>z. yaml_header (''```y'' @ h @ z) = Some z" by blast
  with ls body sp show ?thesis by blast
qed

lemma yamlCodeBlockRegex_shorter:
  "yamlCodeBlockRegex pre s = Some (cap, rest) \<Longrightarrow> length rest < length s"
  by (auto dest!: yamlCodeBlockRegex_SomeD)

lemma yamlCodeBlockRegex_line_start:
  "line_start pre = line_start pre' \<Longrightarrow> yamlCodeBlockRegex pre s = yamlCodeBlockRegex pre' s"
  by (simp add: yamlCodeBlockRegex_def)

lemma yamlCodeBlockRegex_no_tick:
  "c \<noteq> CHR 0x60 \<Longrightarrow> yamlCodeBlockRegex pre (c # cs) = None"
  by (simp add: yamlCodeBlockRegex_def yaml_header_def)

lemma yamlCodeBlockRegex_Nil: "yamlCodeBlockRegex pre [] = None"
  by (simp add: yamlCodeBlockRegex_def yaml_header_def)

lemma yamlCodeBlockRegex_inside:
  "\<not> line_start pre \<Longrightarrow> yamlCodeBlockRegex pre s = None"
  by (simp add: yamlCodeBlockRegex_def)

lemma yamlCodeBlockRegex_needs_fence:
  "\<not> str_includes s ''\<newline>```'' \<Longrightarrow> yamlCodeBlockRegex pre s = None"
proof (rule ccontr)
  assume n: "\<not> str_includes s ''\<newline>```''" and "yamlCodeBlockRegex pre s \<noteq> None"
  then obtain cap rest where "yamlCodeBlockRegex pre s = Some (cap, rest)" by auto
  from yamlCodeBlockRegex_SomeD [OF this] obtain h b where
    "s = (''```y'' @ h @ b) @ ''\<newline>```'' @ rest" by auto
  then have "str_includes s ''\<newline>```''" unfolding str_includes_iff by blast
  with n show False by simp
qed

section \<open>Facts about the replacement of the fenced blocks\<close>

lemma processYamlCodeBlocks_replace_blocks:
  "processYamlCodeBlocks t c = replace_blocks (newCodeBlock c) [] t"
  by (simp add: processYamlCodeBlocks_def replace_blocks_def)

lemma replace_blocks_Nil: "replace_blocks B pre [] = []"
  unfolding replace_blocks_def
  by (subst regex_replace_all.simps) (simp add: yamlCodeBlockRegex_Nil)

lemma replace_blocks_skip_pre:
  "yamlCodeBlockRegex pre (x # xs) = None \<Longrightarrow>
     replace_blocks B pre (x # xs) = x # replace_blocks B (pre @ [x]) xs"
  unfolding replace_blocks_def
  by (subst regex_replace_all.simps) simp

lemma replace_blocks_match_pre:
  assumes "yamlCodeBlockRegex pre s = Some (cap, rest)"
  shows "replace_blocks B pre s = B @ replace_blocks B (pre @ take (length s - length rest) s) rest"
proof -
  from assms have "length rest < length s" by (rule yamlCodeBlockRegex_shorter)
  with assms show ?thesis
    unfolding replace_blocks_def by (subst regex_replace_all.simps) simp
qed

lemma line_start_snoc: "line_start (pre @ [x]) = is_line_terminator x"
  by (simp add: line_start_def)

lemma line_start_append: "m \<noteq> [] \<Longrightarrow> line_start (pre @ m) = is_line_terminator (last m)"
  by (simp add: line_start_def)

lemma replace_blocks_line_start:
  "line_start pre = line_start pre' \<Longrightarrow> replace_blocks B pre s = replace_blocks B pre' s"
proof (induction s arbitrary: pre pre' rule: length_induct)
  case (1 s)
  note ls = "1.prems"
  have y: "yamlCodeBlockRegex pre s = yamlCodeBlockRegex pre' s"
    using ls by (rule yamlCodeBlockRegex_line_start)
  show ?case
  proof (cases "yamlCodeBlockRegex pre s")
    case None
    show ?thesis
    proof (cases s)
      case Nil
      then show ?thesis by (simp add: replace_blocks_Nil)
    next
      case (Cons x xs)
      have "replace_blocks B (pre @ [x]) xs = replace_blocks B (pre' @ [x]) xs"
        using "1.IH" Cons by (simp add: line_start_snoc)
      with None y Cons show ?thesis by (simp add: replace_blocks_skip_pre)
    qed
  next
    case (Some a)
    obtain cap rest where a: "a = (cap, rest)" by (cases a)
    from Some a have m: "yamlCodeBlockRegex pre s = Some (cap, rest)" by simp
    then have l: "length rest < length s" by (rule yamlCodeBlockRegex_shorter)
    let ?m = "take (length s - length rest) s"
    from l have "?m \<noteq> []" by (cases s) auto
    then have "line_start (pre @ ?m) = line_start (pre' @ ?m)" by (simp add: line_start_append)
    with "1.IH" l have "replace_blocks B (pre @ ?m) rest = replace_blocks B (pre' @ ?m) rest"
      by blast
    with m y show ?thesis by (simp add: replace_blocks_match_pre)
  qed
qed

lemma not_line_start_tick: "\<not> line_start (pre @ [CHR 0x60])"
  by (simp add: line_start_snoc is_line_terminator_def)

lemma replace_blocks_skip:
  assumes "yamlCodeBlockRegex pre (x # xs) = None"
  shows "replace_blocks B pre (x # xs) = x # replace_blocks B [x] xs"
proof -
  have "line_start (pre @ [x]) = line_start [x]" by (simp add: line_start_def)
  then have "replace_blocks B (pre @ [x]) xs = replace_blocks B [x] xs"
    by (rule replace_blocks_line_start)
  with assms show ?thesis by (simp add: replace_blocks_skip_pre)
qed

lemma replace_blocks_match:
  assumes "yamlCodeBlockRegex pre s = Some (cap, rest)"
  shows "replace_blocks B pre s = B @ replace_blocks B [CHR 0x60] rest"
proof -
  from yamlCodeBlockRegex_SomeD [OF assms] obtain h b where
    s: "s = ''```y'' @ h @ b @ ''\<newline>```'' @ rest" by blast
  define m where "m = ''```y'' @ h @ b @ ''\<newline>``''"
  from s have "s = (m @ [CHR 0x60]) @ rest" by (simp add: m_def)
  then have "take (length s - length rest) s = m @ [CHR 0x60]" by simp
  then have "line_start (pre @ take (length s - length rest) s) = line_start [CHR 0x60]"
    by (simp add: line_start_def is_line_terminator_def)
  then have "replace_blocks B (pre @ take (length s - length rest) s) rest
               = replace_blocks B [CHR 0x60] rest"
    by (rule replace_blocks_line_start)
  with assms show ?thesis by (simp add: replace_blocks_match_pre)
qed

lemma replace_blocks_no_fence:
  assumes "\<not> str_includes s ''\<newline>```''"
  shows "replace_blocks B pre s = s"
  unfolding replace_blocks_def
proof (rule regex_replace_all_no_match)
  fix b t u assume "s = t @ u"
  with assms have "\<not> str_includes u ''\<newline>```''"
    by (metis str_includes_append_left)
  then show "yamlCodeBlockRegex b u = None" by (rule yamlCodeBlockRegex_needs_fence)
qed

lemma replace_blocks_head:
  assumes "yamlCodeBlockRegex pre s = None" and "replace_blocks B pre s = x # z"
  shows "\<exists>s'. s = x # s' \<and> z = replace_blocks B [x] s'"
proof (cases s)
  case Nil
  with assms(2) show ?thesis by (simp add: replace_blocks_Nil)
next
  case (Cons y ys)
  with assms show ?thesis by (auto simp: replace_blocks_skip)
qed

lemma replace_blocks_prefix:
  assumes "CHR 0x60 \<notin> set u" and "B = CHR 0x60 # B'"
  shows "replace_blocks B pre s = u @ w' \<Longrightarrow> \<exists>w p. s = u @ w \<and> w' = replace_blocks B p w"
  using assms(1)
proof (induction u arbitrary: pre s)
  case Nil
  then show ?case by auto
next
  case (Cons c u)
  from Cons.prems have c: "c \<noteq> CHR 0x60" and u: "CHR 0x60 \<notin> set u" by auto
  have n: "yamlCodeBlockRegex pre s = None"
  proof (rule ccontr)
    assume "yamlCodeBlockRegex pre s \<noteq> None"
    then obtain cap rest where "yamlCodeBlockRegex pre s = Some (cap, rest)" by auto
    then have "replace_blocks B pre s = B @ replace_blocks B [CHR 0x60] rest"
      by (rule replace_blocks_match)
    with Cons.prems(1) assms(2) c show False by simp
  qed
  from Cons.prems(1) have "replace_blocks B pre s = c # (u @ w')" by simp
  from replace_blocks_head [OF n this] obtain s' where
    s': "s = c # s'" and z: "u @ w' = replace_blocks B [c] s'" by blast
  from Cons.IH [OF z [symmetric] u] obtain w p where "s' = u @ w" "w' = replace_blocks B p w"
    by blast
  with s' show ?case by auto
qed

lemma header_transfer:
  assumes "yamlCodeBlockRegex pre s = None" and "yaml_header (replace_blocks B pre s) = Some body'"
    and "B = CHR 0x60 # B'"
  shows "\<exists>body p. yaml_header s = Some body \<and> body' = replace_blocks B p body"
proof -
  from yaml_header_SomeD [OF assms(2)] obtain h where
    z: "replace_blocks B pre s = ''```y'' @ h @ body'" and h: "CHR 0x60 \<notin> set h"
    and all: "\<forall>z. yaml_header (''```y'' @ h @ z) = Some z" by blast
  from z have "replace_blocks B pre s = CHR 0x60 # (''``y'' @ h @ body')" by simp
  from replace_blocks_head [OF assms(1) this] obtain s1 where
    s1: "s = CHR 0x60 # s1" and z1: "''``y'' @ h @ body' = replace_blocks B [CHR 0x60] s1" by blast
  have ins: "\<And>t. yamlCodeBlockRegex [CHR 0x60] t = None"
    using not_line_start_tick [of "[]"] by (simp add: yamlCodeBlockRegex_inside)
  from z1 have "replace_blocks B [CHR 0x60] s1 = CHR 0x60 # (''`y'' @ h @ body')" by simp
  from replace_blocks_head [OF ins this] obtain s2 where
    s2: "s1 = CHR 0x60 # s2" and z2: "''`y'' @ h @ body' = replace_blocks B [CHR 0x60] s2" by blast
  from z2 have "replace_blocks B [CHR 0x60] s2 = CHR 0x60 # (''y'' @ h @ body')" by simp
  from replace_blocks_head [OF ins this] obtain s3 where
    s3: "s2 = CHR 0x60 # s3" and z3: "''y'' @ h @ body' = replace_blocks B [CHR 0x60] s3" by blast
  have "CHR 0x60 \<notin> set (''y'' @ h)" using h by simp
  moreover from z3 have "replace_blocks B [CHR 0x60] s3 = (''y'' @ h) @ body'" by simp
  ultimately obtain w p where w: "s3 = (''y'' @ h) @ w" and b: "body' = replace_blocks B p w"
    using replace_blocks_prefix [OF _ assms(3)] by blast
  from s1 s2 s3 w have "s = ''```y'' @ h @ w" by simp
  with all have "yaml_header s = Some w" by simp
  with b show ?thesis by blast
qed

lemma unmatched_stays_unmatched:
  assumes "yamlCodeBlockRegex pre s = None" and "B = CHR 0x60 # B'"
  shows "yamlCodeBlockRegex pre (replace_blocks B pre s) = None"
proof (rule ccontr)
  assume "yamlCodeBlockRegex pre (replace_blocks B pre s) \<noteq> None"
  then have ls: "line_start pre"
    and "\<exists>body'. yaml_header (replace_blocks B pre s) = Some body'
           \<and> split_first ''\<newline>```'' body' \<noteq> None"
    by (auto simp: yamlCodeBlockRegex_def split: if_splits option.splits)
  then obtain body' where hb: "yaml_header (replace_blocks B pre s) = Some body'"
    and sp: "split_first ''\<newline>```'' body' \<noteq> None" by blast
  from header_transfer [OF assms(1) hb assms(2)] obtain body p where
    h: "yaml_header s = Some body" and b: "body' = replace_blocks B p body" by blast
  from assms(1) ls h have "split_first ''\<newline>```'' body = None"
    by (auto simp: yamlCodeBlockRegex_def split: option.splits)
  then have "\<not> str_includes body ''\<newline>```''" by (simp add: str_includes_def)
  then have "replace_blocks B p body = body" by (rule replace_blocks_no_fence)
  with b sp \<open>split_first ''\<newline>```'' body = None\<close> show False by simp
qed

lemma not_includes_None: "\<not> str_includes s pat \<Longrightarrow> split_first pat s = None"
  by (cases "split_first pat s") (simp_all add: str_includes_def)

lemma new_block_matches:
  assumes "line_start pre" and "\<not> str_includes (trim c) ''\<newline>```''"
  shows "yamlCodeBlockRegex pre (newCodeBlock c @ z) = Some ((), z)"
proof -
  have h: "yaml_header (newCodeBlock c @ z) = Some (trim c @ ''\<newline>```'' @ z)"
    by (simp add: newCodeBlock_def yaml_header_def opt_lit_def opt_prefix_def spaces_lit_def
        is_space_def)
  from assms(2) have "split_first (CHR 0x0A # ''```'') (trim c) = None"
    using not_includes_None [of "trim c" "''\<newline>```''"] by simp
  then have "split_first (CHR 0x0A # ''```'') (trim c @ CHR 0x0A # ''```'' @ z) = Some (trim c, z)"
    by (rule split_first_at) simp
  with h assms(1) show ?thesis by (simp add: yamlCodeBlockRegex_def)
qed

lemma newCodeBlock_tick: "\<exists>B'. newCodeBlock c = CHR 0x60 # B'"
  by (simp add: newCodeBlock_def)

lemma replace_blocks_idem:
  assumes "\<not> str_includes (trim c) ''\<newline>```''"
  shows "replace_blocks (newCodeBlock c) pre (replace_blocks (newCodeBlock c) pre s)
           = replace_blocks (newCodeBlock c) pre s"
proof (induction s arbitrary: pre rule: length_induct)
  case (1 s)
  let ?B = "newCodeBlock c"
  obtain B' where B: "?B = CHR 0x60 # B'" using newCodeBlock_tick by blast
  show ?case
  proof (cases "yamlCodeBlockRegex pre s")
    case None
    show ?thesis
    proof (cases s)
      case Nil
      then show ?thesis by (simp add: replace_blocks_Nil)
    next
      case (Cons x xs)
      with None have r: "replace_blocks ?B pre s = x # replace_blocks ?B [x] xs"
        by (simp add: replace_blocks_skip)
      from unmatched_stays_unmatched [OF None B] r
      have "yamlCodeBlockRegex pre (x # replace_blocks ?B [x] xs) = None" by simp
      then have "replace_blocks ?B pre (x # replace_blocks ?B [x] xs)
              = x # replace_blocks ?B [x] (replace_blocks ?B [x] xs)"
        by (rule replace_blocks_skip)
      also have "replace_blocks ?B [x] (replace_blocks ?B [x] xs) = replace_blocks ?B [x] xs"
        using "1.IH" Cons by simp
      finally show ?thesis using r by simp
    qed
  next
    case (Some a)
    obtain cap rest where m: "yamlCodeBlockRegex pre s = Some (cap, rest)"
      using Some by (cases a) auto
    then have l: "length rest < length s" by (rule yamlCodeBlockRegex_shorter)
    from m have ls: "line_start pre" by (simp add: yamlCodeBlockRegex_def split: if_splits)
    let ?Z = "replace_blocks ?B [CHR 0x60] rest"
    from m have r: "replace_blocks ?B pre s = ?B @ ?Z" by (rule replace_blocks_match)
    have "yamlCodeBlockRegex pre (?B @ ?Z) = Some ((), ?Z)"
      using ls assms by (rule new_block_matches)
    then have "replace_blocks ?B pre (?B @ ?Z) = ?B @ replace_blocks ?B [CHR 0x60] ?Z"
      by (rule replace_blocks_match)
    also have "replace_blocks ?B [CHR 0x60] ?Z = ?Z" using "1.IH" l by blast
    finally show ?thesis using r by simp
  qed
qed

lemma yamlCodeBlockRegex_append:
  assumes "yamlCodeBlockRegex pre s = Some (cap, r)"
  shows "yamlCodeBlockRegex pre (s @ z) = Some ((), r @ z)"
proof -
  from assms have ls: "line_start pre" by (simp add: yamlCodeBlockRegex_def split: if_splits)
  with assms obtain body b where hd: "yaml_header s = Some body"
    and sp: "split_first ''\<newline>```'' body = Some (b, r)"
    by (auto simp: yamlCodeBlockRegex_def split: option.splits)
  from yaml_header_SomeD [OF hd] obtain h where s: "s = ''```y'' @ h @ body"
    and all: "\<forall>z. yaml_header (''```y'' @ h @ z) = Some z" by blast
  from s have "s @ z = ''```y'' @ h @ (body @ z)" by simp
  with all have "yaml_header (s @ z) = Some (body @ z)" by metis
  moreover from sp have "split_first ''\<newline>```'' (body @ z) = Some (b, r @ z)"
    by (rule split_first_append)
  ultimately show ?thesis using ls by (simp add: yamlCodeBlockRegex_def)
qed

lemma set_trim: "set (trim c) \<subseteq> set c"
proof -
  have "set (trim c) \<subseteq> set (dropWhile is_space c)"
    unfolding trim_def using set_dropWhileD [of _ is_space "rev (dropWhile is_space c)"] by auto
  then show ?thesis using set_dropWhileD [of _ is_space c] by blast
qed

lemma newCodeBlock_no_dollar: "CHR ''$'' \<notin> set c \<Longrightarrow> CHR ''$'' \<notin> set (newCodeBlock c)"
  using set_trim [of c] by (auto simp: newCodeBlock_def)

section \<open>Facts about the file names\<close>

lemma split_words_single:
  assumes "dropWhile (\<lambda>c. \<not> is_separator c) s = []"
  shows "split_words s = [s]"
  by (subst split_words.simps) (simp only: assms simp_thms if_True)

lemma split_words_more:
  assumes "dropWhile (\<lambda>c. \<not> is_separator c) s \<noteq> []"
  shows "split_words s = takeWhile (\<lambda>c. \<not> is_separator c) s
     # split_words (dropWhile is_separator (dropWhile (\<lambda>c. \<not> is_separator c) s))"
  by (subst split_words.simps) (simp only: assms simp_thms if_False)

lemma split_words_plain: "\<forall>c \<in> set w. \<not> is_separator c \<Longrightarrow> split_words w = [w]"
  by (rule split_words_single) (simp add: dropWhile_eq_Nil_conv)

text \<open>
  A word, a run of separators and a text that does not start with a separator: the word
  is the first of the words, and the others are those of the text.
\<close>

lemma split_words_step:
  assumes w: "\<forall>c \<in> set w. \<not> is_separator c"
    and s: "s \<noteq> []" "\<forall>c \<in> set s. is_separator c"
    and t: "t = [] \<or> \<not> is_separator (hd t)"
  shows "split_words (w @ s @ t) = w # split_words t"
proof -
  let ?P = "\<lambda>c. \<not> is_separator c"
  from s obtain x s' where xs: "s = x # s'" and x: "is_separator x" by (cases s) auto
  have tk: "takeWhile ?P (w @ s @ t) = w"
    using w x unfolding xs by (simp add: takeWhile_append2 [of w ?P] del: append_assoc)
  have dr: "dropWhile ?P (w @ s @ t) = s @ t"
    using w x unfolding xs by (simp add: dropWhile_append2 [of w ?P] del: append_assoc)
  have "dropWhile is_separator (s @ t) = dropWhile is_separator t"
    using s(2) by (simp add: dropWhile_append2)
  also have "\<dots> = t" using t by (cases t) auto
  finally have ds: "dropWhile is_separator (s @ t) = t" .
  have "dropWhile ?P (w @ s @ t) \<noteq> []" using dr s(1) by simp
  from split_words_more [OF this] show ?thesis by (simp only: tk dr ds)
qed

lemma split_words_words:
  assumes "\<forall>c \<in> set w0. \<not> is_separator c"
    and "\<forall>(s, w) \<in> set rest. s \<noteq> [] \<and> (\<forall>c \<in> set s. is_separator c) \<and> (\<forall>c \<in> set w. \<not> is_separator c)"
    and "\<forall>(s, w) \<in> set (butlast rest). w \<noteq> []"
  shows "split_words (w0 @ concat (map (\<lambda>(s, w). s @ w) rest)) = w0 # map snd rest"
  using assms
proof (induction rest arbitrary: w0)
  case Nil
  then show ?case by (simp add: split_words_plain)
next
  case (Cons sw rest)
  obtain s w where sw: "sw = (s, w)" by (cases sw)
  let ?tail = "concat (map (\<lambda>(s, w). s @ w) rest)"
  from Cons.prems(2) sw have s: "s \<noteq> []" "\<forall>c \<in> set s. is_separator c"
    and w: "\<forall>c \<in> set w. \<not> is_separator c"
    and rest: "\<forall>(s, w) \<in> set rest. s \<noteq> [] \<and> (\<forall>c \<in> set s. is_separator c) \<and> (\<forall>c \<in> set w. \<not> is_separator c)"
    by auto
  have bl: "\<forall>(s, w) \<in> set (butlast rest). w \<noteq> []"
    using Cons.prems(3) by (cases "rest = []") auto
  have t: "w @ ?tail = [] \<or> \<not> is_separator (hd (w @ ?tail))"
  proof (cases "w = []")
    case False
    with w show ?thesis by (cases w) auto
  next
    case True
    have "rest = []"
    proof (rule ccontr)
      assume "rest \<noteq> []"
      then have "sw \<in> set (butlast (sw # rest))" by simp
      with Cons.prems(3) sw True show False by auto
    qed
    with True show ?thesis by simp
  qed
  have "split_words (w0 @ s @ (w @ ?tail)) = w0 # split_words (w @ ?tail)"
    using Cons.prems(1) s t by (rule split_words_step)
  also have "split_words (w @ ?tail) = w # map snd rest"
    using w rest bl by (rule Cons.IH)
  finally show ?case using sw by simp
qed

text \<open>Every name is made of words and runs of separators in this way.\<close>

lemma words_of_name:
  "\<exists>w0 rest. nm = w0 @ concat (map (\<lambda>(s, w). s @ w) rest)
     \<and> (\<forall>c \<in> set w0. \<not> is_separator c)
     \<and> (\<forall>(s, w) \<in> set rest. s \<noteq> [] \<and> (\<forall>c \<in> set s. is_separator c) \<and> (\<forall>c \<in> set w. \<not> is_separator c))
     \<and> (\<forall>(s, w) \<in> set (butlast rest). w \<noteq> [])"
proof (induction nm rule: length_induct)
  case (1 nm)
  let ?P = "\<lambda>c. \<not> is_separator c"
  let ?w = "takeWhile ?P nm"
  let ?r = "dropWhile ?P nm"
  let ?s = "takeWhile is_separator ?r"
  let ?t = "dropWhile is_separator ?r"
  have w: "\<forall>c \<in> set ?w. \<not> is_separator c" by (auto dest: set_takeWhileD)
  show ?case
  proof (cases "?r = []")
    case True
    then have "nm = ?w @ concat (map (\<lambda>(s, w). s @ w) [])"
      by (metis takeWhile_dropWhile_id append_Nil2 concat.simps(1) list.map(1))
    with w show ?thesis by (intro exI [of _ ?w] exI [of _ "[]"]) simp
  next
    case False
    then have sep: "is_separator (hd ?r)" using hd_dropWhile [of ?P nm] by simp
    with False have sne: "?s \<noteq> []" by (cases ?r) auto
    have sall: "\<forall>c \<in> set ?s. is_separator c" by (auto dest: set_takeWhileD)
    have "length ?t < length nm"
    proof -
      have "length (?w @ ?s @ ?t) = length nm" by simp
      then have "length nm = length ?w + length ?s + length ?t"
        by (simp only: length_append add.assoc)
      with sne show ?thesis by (cases ?s) simp_all
    qed
    with "1.IH" obtain w1 rest where
      t: "?t = w1 @ concat (map (\<lambda>(s, w). s @ w) rest)"
      and w1: "\<forall>c \<in> set w1. \<not> is_separator c"
      and rest: "\<forall>(s, w) \<in> set rest. s \<noteq> [] \<and> (\<forall>c \<in> set s. is_separator c) \<and> (\<forall>c \<in> set w. \<not> is_separator c)"
      and bl: "\<forall>(s, w) \<in> set (butlast rest). w \<noteq> []"
      by blast
    have hd_t: "?t = [] \<or> \<not> is_separator (hd ?t)"
      using hd_dropWhile [of is_separator ?r] by auto
    have w1ne: "w1 \<noteq> []" if "rest \<noteq> []"
    proof
      assume e: "w1 = []"
      from that obtain s2 w2 rest' where r: "rest = (s2, w2) # rest'" by (cases rest) auto
      with rest have "s2 \<noteq> []" "\<forall>c \<in> set s2. is_separator c" by auto
      then have "is_separator (hd s2)" by (cases s2) auto
      moreover from t e r \<open>s2 \<noteq> []\<close> have "?t \<noteq> []" "hd ?t = hd s2" by (cases s2; simp)+
      ultimately show False using hd_t by metis
    qed
    let ?rest = "(?s, w1) # rest"
    have "concat (map (\<lambda>(s, w). s @ w) ?rest) = ?s @ w1 @ concat (map (\<lambda>(s, w). s @ w) rest)"
      by simp
    then have "?w @ concat (map (\<lambda>(s, w). s @ w) ?rest) = ?w @ ?s @ ?t"
      by (simp only: t [symmetric])
    also have "\<dots> = nm" by simp
    finally have 1: "nm = ?w @ concat (map (\<lambda>(s, w). s @ w) ?rest)" by (rule sym)
    have 2: "\<forall>(s, w) \<in> set ?rest. s \<noteq> [] \<and> (\<forall>c \<in> set s. is_separator c) \<and> (\<forall>c \<in> set w. \<not> is_separator c)"
    proof (intro ballI)
      fix x assume "x \<in> set ?rest"
      then have "x = (?s, w1) \<or> x \<in> set rest" by simp
      then show "case x of (s, w) \<Rightarrow> s \<noteq> [] \<and> (\<forall>c \<in> set s. is_separator c) \<and> (\<forall>c \<in> set w. \<not> is_separator c)"
      proof
        assume "x = (?s, w1)"
        then show ?thesis using sne sall w1 by (simp only: prod.case) blast
      next
        assume "x \<in> set rest"
        with rest show ?thesis by blast
      qed
    qed
    have 3: "\<forall>(s, w) \<in> set (butlast ?rest). w \<noteq> []"
    proof (cases "rest = []")
      case True
      then show ?thesis by simp
    next
      case False
      then have "butlast ?rest = (?s, w1) # butlast rest" by simp
      moreover have "w1 \<noteq> []" using False by (rule w1ne)
      ultimately show ?thesis using bl by simp
    qed
    show ?thesis
      apply (rule exI [of _ ?w])
      apply (rule exI [of _ ?rest])
      apply (intro conjI)
         apply (rule 1)
        apply (rule w)
       apply (rule 2)
      apply (rule 3)
      done
  qed
qed

lemma capitalize_word_Nil: "capitalize_word [] = []"
  by (simp add: capitalize_word_def toUpperCase_def toLowerCase_def units_def)

lemma capitalize_word_Cons: "capitalize_word (c # cs) = upper_char c @ units (map lower_char cs)"
  by (simp add: capitalize_word_def toUpperCase_def toLowerCase_def)

lemma processDateVariables_returns:
  "processDateVariables now s = None \<Longrightarrow> now ''YYYY/MM/DD'' = None"
  by (simp add: processDateVariables_def split: option.splits)

lemma generateFileName_None:
  "generateFileName st now nm = None \<Longrightarrow> now ''YYYY/MM/DD'' = None"
  by (auto simp: generateFileName_def Let_def split: option.splits if_splits
      dest: processDateVariables_returns)

lemma generateFileName_md:
  "generateFileName st now nm = Some f \<Longrightarrow> \<exists>g. f = g @ units ''.md''"
  by (auto simp: generateFileName_def Let_def split: option.splits if_splits)

lemma generateFileName_no_date:
  assumes "\<not> str_includes (fileNamePrefix st) ''{{date''"
    and "\<not> str_includes (fileNameSuffix st) ''{{date''"
    and "now ''YYYY/MM/DD'' \<noteq> None"
  shows "generateFileName st now nm
           = Some (units (fileNamePrefix st) @ capitalizeStackName nm @ units (fileNameSuffix st)
                     @ units ''.md'')"
proof -
  from assms(3) obtain today where t: "now ''YYYY/MM/DD'' = Some today" by auto
  have 1: "processDateVariables now (fileNamePrefix st) = Some (fileNamePrefix st)"
    using assms(1) t by (rule processDateVariables_absent)
  have 2: "processDateVariables now (fileNameSuffix st) = Some (fileNameSuffix st)"
    using assms(2) t by (rule processDateVariables_absent)
  show ?thesis
    by (simp add: generateFileName_def Let_def 1 2 units_def)
qed

section \<open>The matchers and the expressions\<close>

text \<open>
  The matchers of the model give the first match that backtracking finds for the
  expressions of the program.
\<close>

lemma matches_Lit:
  "matches (Lit p # rx) s = (case strip_prefix p s of Some r \<Rightarrow> matches rx r | None \<Rightarrow> [])"
  by (simp split: option.splits)

lemma matches_Lit_other:
  "q \<noteq> [] \<Longrightarrow> s \<noteq> [] \<Longrightarrow> hd s \<noteq> hd q \<Longrightarrow> matches (Lit q # rx) s = []"
  by (cases q; cases s) (simp_all split: option.splits)

lemma matches_OptLit:
  assumes "p \<noteq> []" and "q \<noteq> []" and "hd p \<noteq> hd q"
  shows "matches (OptLit p # Lit q # rx) s = matches (Lit q # rx) (opt_prefix p s)"
proof (cases "strip_prefix p s")
  case None
  then show ?thesis by (simp add: opt_prefix_def)
next
  case (Some r)
  then have s: "s = p @ r" by (simp add: strip_prefix_Some)
  with assms(1) have "s \<noteq> []" "hd s = hd p" by (cases p; simp)+
  with assms have "matches (Lit q # rx) s = []" by (intro matches_Lit_other) simp_all
  with Some show ?thesis by (simp add: opt_prefix_def)
qed

lemma matches_greedy:
  assumes "q \<noteq> []" and "\<not> P (hd q)"
  shows "concat (map (matches (Lit q # rx)) (greedy_run P s))
           = (if takeWhile P s = [] then [] else matches (Lit q # rx) (dropWhile P s))"
proof (induction s)
  case Nil
  then show ?case by simp
next
  case (Cons c cs)
  show ?case
  proof (cases "P c")
    case False
    then show ?thesis by simp
  next
    case True
    show ?thesis
    proof (cases "takeWhile P cs = []")
      case t: True
      then have "dropWhile P cs = cs" by (cases cs) (auto split: if_splits)
      with True t Cons show ?thesis by simp
    next
      case f: False
      then obtain d ds where cs: "cs = d # ds" and d: "P d" by (cases cs) (auto split: if_splits)
      with assms have "matches (Lit q # rx) cs = []"
        by (intro matches_Lit_other) auto
      with True f Cons show ?thesis by simp
    qed
  qed
qed

lemma matches_Spaces:
  assumes "q \<noteq> []" and "\<not> is_space (hd q)"
  shows "matches (Spaces # Lit q # rx) s = (case spaces_lit q s of Some r \<Rightarrow> matches rx r | None \<Rightarrow> [])"
proof -
  have "matches (Spaces # Lit q # rx) s = concat (map (matches (Lit q # rx)) (greedy_run is_space s))"
    by simp
  also have "\<dots> = (if takeWhile is_space s = [] then []
                    else matches (Lit q # rx) (dropWhile is_space s))"
    using assms by (rule matches_greedy)
  finally show ?thesis by (simp add: spaces_lit_def split: option.splits)
qed

lemma matches_OptLit_Lit:
  assumes "p \<noteq> []" and "q \<noteq> []" and "hd p \<noteq> hd q"
  shows "matches (OptLit p # Lit q # rx) s = (case opt_lit p q s of Some r \<Rightarrow> matches rx r | None \<Rightarrow> [])"
  by (simp only: matches_OptLit [OF assms] matches_Lit opt_lit_def)

lemma snd_split_first_Cons:
  "map_option snd (map_option (\<lambda>(b, y). (c # b, y)) x) = map_option snd x"
  by (cases x) auto

lemma pair_snd_option:
  "map_option (Pair ()) (map_option snd x) = map_option (\<lambda>(b, y). ((), y)) x"
  by (cases x) auto

lemma first_lazy:
  "first_match [AnyLazy, Lit pat] s = map_option snd (split_first pat s)"
proof (induction s)
  case Nil
  then show ?case by (cases pat) (simp_all add: first_match_def)
next
  case (Cons c cs)
  show ?case
  proof (cases "strip_prefix pat (c # cs)")
    case (Some r)
    then show ?thesis by (simp add: first_match_def)
  next
    case None
    with Cons show ?thesis
      by (simp add: first_match_def snd_split_first_Cons split: option.splits list.splits)
  qed
qed

lemma yaml_header_matches:
  "matches yamlCodeBlock_expression s
     = (case yaml_header s of None \<Rightarrow> [] | Some body \<Rightarrow> matches [AnyLazy, Lit ''\<newline>```''] body)"
proof -
  have 1: "\<And>rx s. matches (OptLit ''a'' # Lit ''ml'' # rx) s
             = (case opt_lit ''a'' ''ml'' s of Some r \<Rightarrow> matches rx r | None \<Rightarrow> [])"
    by (rule matches_OptLit_Lit) simp_all
  have 2: "\<And>rx s. matches (Spaces # Lit ''title='' # rx) s
             = (case spaces_lit ''title='' s of Some r \<Rightarrow> matches rx r | None \<Rightarrow> [])"
    by (rule matches_Spaces) (simp_all add: is_space_def)
  have 3: "\<And>rx s. matches (OptLit ''docker-'' # Lit ''compose.y'' # rx) s
             = (case opt_lit ''docker-'' ''compose.y'' s of Some r \<Rightarrow> matches rx r | None \<Rightarrow> [])"
    by (rule matches_OptLit_Lit) simp_all
  have 4: "\<And>rx s. matches (OptLit [CHR 0x0D] # Lit [CHR 0x0A] # rx) s
             = (case opt_lit [CHR 0x0D] [CHR 0x0A] s of Some r \<Rightarrow> matches rx r | None \<Rightarrow> [])"
    by (rule matches_OptLit_Lit) simp_all
  show ?thesis
    unfolding yamlCodeBlock_expression_def yaml_header_def
    by (simp only: matches_Lit 1 2 3 4) (simp split: option.splits add: Option.bind_def)
qed

lemma yamlCodeBlockRegex_expression:
  "yamlCodeBlockRegex pre s
     = (if line_start pre then map_option (Pair ()) (first_match yamlCodeBlock_expression s)
        else None)"
proof -
  have "first_match yamlCodeBlock_expression s
          = (case yaml_header s of None \<Rightarrow> None
             | Some body \<Rightarrow> first_match [AnyLazy, Lit ''\<newline>```''] body)"
    unfolding first_match_def [of yamlCodeBlock_expression] yaml_header_matches
    by (simp add: first_match_def split: option.splits)
  then show ?thesis
    by (auto simp: yamlCodeBlockRegex_def first_lazy pair_snd_option split: option.splits)
qed

lemma dateFormatRegex_expression:
  "map_option snd (dateFormatRegex pre s) = first_match dateFormat_expression s"
proof -
  have "matches [NotBraces, Lit ''}}''] r
          = (if takeWhile (\<lambda>c. c \<noteq> CHR ''}'') r = [] then []
             else matches [Lit ''}}''] (dropWhile (\<lambda>c. c \<noteq> CHR ''}'') r))" for r
    using matches_greedy [of "''}}''" "\<lambda>c. c \<noteq> CHR ''}''" "[]" r] by simp
  then show ?thesis
    by (simp add: dateFormatRegex_def dateFormat_expression_def first_match_def
        split: option.splits)
qed

section \<open>Texts made of passages and blocks\<close>

lemma replace_blocks_plain:
  "CHR 0x60 \<notin> set u \<Longrightarrow> replace_blocks B pre (u @ w) = u @ replace_blocks B (pre @ u) w"
proof (induction u arbitrary: pre)
  case Nil
  then show ?case by simp
next
  case (Cons c u)
  then have "c \<noteq> CHR 0x60" by auto
  then have "yamlCodeBlockRegex pre (c # u @ w) = None"
    by (rule yamlCodeBlockRegex_no_tick)
  then have "replace_blocks B pre ((c # u) @ w) = c # replace_blocks B (pre @ [c]) (u @ w)"
    by (simp add: replace_blocks_skip_pre)
  also have "replace_blocks B (pre @ [c]) (u @ w) = u @ replace_blocks B ((pre @ [c]) @ u) w"
    using Cons.prems by (intro Cons.IH) simp
  finally show ?case by simp
qed

lemma fenced_at_line_start:
  assumes "yamlCodeBlockRegex [] b = Some ((), [])" and "line_start p"
  shows "yamlCodeBlockRegex p (b @ z) = Some ((), z)"
proof -
  from assms(2) have "line_start p = line_start []" by (simp add: line_start_def)
  then have "yamlCodeBlockRegex p b = yamlCodeBlockRegex [] b"
    by (rule yamlCodeBlockRegex_line_start)
  with assms(1) have "yamlCodeBlockRegex p b = Some ((), [])" by simp
  from yamlCodeBlockRegex_append [OF this, of z] show ?thesis by simp
qed

lemma replace_blocks_passage:
  assumes "CHR 0x60 \<notin> set u" and "line_start (p @ u)" and "yamlCodeBlockRegex [] b = Some ((), [])"
  shows "replace_blocks B p (u @ b @ z) = u @ B @ replace_blocks B [CHR 0x60] z"
proof -
  have "replace_blocks B p (u @ b @ z) = u @ replace_blocks B (p @ u) (b @ z)"
    using assms(1) by (rule replace_blocks_plain)
  also have "replace_blocks B (p @ u) (b @ z) = B @ replace_blocks B [CHR 0x60] z"
    using fenced_at_line_start [OF assms(3,2)] by (rule replace_blocks_match)
  finally show ?thesis .
qed

lemma replace_blocks_items:
  assumes "\<forall>(u, b) \<in> set items. CHR 0x60 \<notin> set u \<and> u \<noteq> [] \<and> is_line_terminator (last u)
             \<and> yamlCodeBlockRegex [] b = Some ((), [])"
    and "CHR 0x60 \<notin> set t"
  shows "replace_blocks B p (concat (map (\<lambda>(u, b). u @ b) items) @ t)
           = concat (map (\<lambda>(u, b). u @ B) items) @ t"
  using assms(1)
proof (induction items arbitrary: p)
  case Nil
  show ?case using replace_blocks_plain [OF assms(2), of B p "[]"]
    by (simp add: replace_blocks_Nil)
next
  case (Cons i items)
  obtain u b where i: "i = (u, b)" by (cases i)
  with Cons.prems have u: "CHR 0x60 \<notin> set u" "u \<noteq> []" "is_line_terminator (last u)"
    and b: "yamlCodeBlockRegex [] b = Some ((), [])" by auto
  from u have ls: "line_start (p @ u)" by (simp add: line_start_def)
  have rest: "\<forall>(u, b) \<in> set items. CHR 0x60 \<notin> set u \<and> u \<noteq> [] \<and> is_line_terminator (last u)
             \<and> yamlCodeBlockRegex [] b = Some ((), [])"
    using Cons.prems by simp
  have "replace_blocks B p (u @ b @ (concat (map (\<lambda>(u, b). u @ b) items) @ t))
          = u @ B @ replace_blocks B [CHR 0x60] (concat (map (\<lambda>(u, b). u @ b) items) @ t)"
    using u(1) ls b by (rule replace_blocks_passage)
  with Cons.IH [OF rest] i show ?case by simp
qed

lemma regex_exec_plain:
  "CHR 0x60 \<notin> set u \<Longrightarrow>
     regex_exec yamlCodeBlockRegex pre (u @ c # w) = regex_exec yamlCodeBlockRegex (pre @ u) (c # w)"
proof (induction u arbitrary: pre)
  case Nil
  then show ?case by simp
next
  case (Cons d u)
  then have "d \<noteq> CHR 0x60" by auto
  then have "yamlCodeBlockRegex pre (d # u @ c # w) = None"
    by (rule yamlCodeBlockRegex_no_tick)
  moreover have "regex_exec yamlCodeBlockRegex (pre @ [d]) (u @ c # w)
      = regex_exec yamlCodeBlockRegex ((pre @ [d]) @ u) (c # w)"
    using Cons.prems by (intro Cons.IH) simp
  ultimately show ?case by simp
qed

lemma split_first_plain:
  assumes "CHR 0x60 \<notin> set u"
  shows "split_first (CHR 0x60 # b) (u @ CHR 0x60 # b @ z) = Some (u, z)"
  using assms
proof (induction u)
  case Nil
  then show ?case using strip_prefix_append [of b z] by simp
next
  case (Cons c u)
  then have "c \<noteq> CHR 0x60" by auto
  with Cons show ?case by simp
qed

lemma update_first_block:
  assumes "CHR 0x60 \<notin> set u" and "line_start u" and "yamlCodeBlockRegex [] b = Some ((), [])"
    and "CHR ''$'' \<notin> set c"
  shows "updateYamlCodeBlock (u @ b @ z) c = Some (u @ newCodeBlock c @ z)"
proof -
  from assms(3) obtain h body where "b = ''```y'' @ h @ body"
    by (blast dest: yamlCodeBlockRegex_SomeD)
  then obtain b' where b': "b = CHR 0x60 # b'" by simp
  have m: "yamlCodeBlockRegex ([] @ u) (b @ z) = Some ((), z)"
    using fenced_at_line_start [OF assms(3), of "[] @ u" z] assms(2) by simp
  have "regex_exec yamlCodeBlockRegex [] (u @ b @ z) = regex_exec yamlCodeBlockRegex ([] @ u) (b @ z)"
    unfolding b' using regex_exec_plain [OF assms(1), of "[]" "CHR 0x60" "b' @ z"] by simp
  also have "\<dots> = Some (u, b, z)"
    using m unfolding b' by simp
  finally have e: "regex_exec yamlCodeBlockRegex [] (u @ b @ z) = Some (u, b, z)" .
  have s: "split_first b (u @ b @ z) = Some (u, z)"
    unfolding b' using split_first_plain [OF assms(1), of b' z] by simp
  show ?thesis
    using e s
    by (simp add: updateYamlCodeBlock_def replace_str_def
        getSubstitution_no_dollar [OF newCodeBlock_no_dollar [OF assms(4)]])
qed

section \<open>Replacement around a text that no match touches\<close>








section \<open>Texts that the placeholders cannot touch\<close>



lemma opens_no_includes: "opens_no tok s \<Longrightarrow> \<not> str_includes s tok"
  by (simp add: opens_no_def)









section \<open>The date placeholders\<close>








section \<open>The literal placeholders\<close>




section \<open>The pieces of a template\<close>








section \<open>The placeholders around the content\<close>






section \<open>All the blocks, or the first one\<close>

text \<open>
  Claim C1, as the program has it. The two operations use the same expression, with the
  flags \<open>gm\<close> at creation and \<open>m\<close> at update. Take a text made of fenced blocks with a
  compose title (each matched whole by the expression) and of passages without backquote:
  a passage \<open>u0\<close> that is empty or ends a line, the first block \<open>b0\<close>, then any number of
  pairs of a passage that ends a line and a block, then a last passage \<open>t\<close>. For a content
  without \<open>$\<close>, \<open>processYamlCodeBlocks\<close>, used at creation, replaces every block by the
  new block; \<open>updateYamlCodeBlock\<close>, used on existing notes, replaces the first block and
  leaves all the others as they are.
\<close>

theorem blocks_creation_and_update:
  assumes "CHR 0x60 \<notin> set u0" and "line_start u0" and "yamlCodeBlockRegex [] b0 = Some ((), [])"
    and "\<forall>(u, b) \<in> set items. CHR 0x60 \<notin> set u \<and> u \<noteq> [] \<and> is_line_terminator (last u)
             \<and> yamlCodeBlockRegex [] b = Some ((), [])"
    and "CHR 0x60 \<notin> set t" and "CHR ''$'' \<notin> set c"
  shows "processYamlCodeBlocks (u0 @ b0 @ concat (map (\<lambda>(u, b). u @ b) items) @ t) c
           = u0 @ newCodeBlock c @ concat (map (\<lambda>(u, b). u @ newCodeBlock c) items) @ t
     \<and> updateYamlCodeBlock (u0 @ b0 @ concat (map (\<lambda>(u, b). u @ b) items) @ t) c
           = Some (u0 @ newCodeBlock c @ concat (map (\<lambda>(u, b). u @ b) items) @ t)"
proof -
  let ?B = "newCodeBlock c"
  let ?rest = "concat (map (\<lambda>(u, b). u @ b) items) @ t"
  have "replace_blocks ?B [] (u0 @ b0 @ ?rest) = u0 @ ?B @ replace_blocks ?B [CHR 0x60] ?rest"
    using assms(1) _ assms(3) by (rule replace_blocks_passage) (simp add: assms(2))
  also have "replace_blocks ?B [CHR 0x60] ?rest = concat (map (\<lambda>(u, b). u @ ?B) items) @ t"
    using assms(4,5) by (rule replace_blocks_items)
  finally have 1: "processYamlCodeBlocks (u0 @ b0 @ ?rest) c
      = u0 @ ?B @ concat (map (\<lambda>(u, b). u @ ?B) items) @ t"
    by (simp add: processYamlCodeBlocks_replace_blocks)
  have 2: "updateYamlCodeBlock (u0 @ b0 @ ?rest) c = Some (u0 @ ?B @ ?rest)"
    using assms(1,2,3,6) by (rule update_first_block)
  from 1 2 show ?thesis by simp
qed

theorem blocks_creation_and_update_witness:
  "processYamlCodeBlocks
      (''# Stack\<newline>'' @ ''```yaml title=compose.yaml\<newline>one\<newline>```''
        @ concat (map (\<lambda>(u, b). u @ b) [(''\<newline>and\<newline>'', ''```yml title=docker-compose.yml\<newline>two\<newline>```'')])
        @ ''\<newline>end'')
      ''image: nginx''
     = ''# Stack\<newline>'' @ newCodeBlock ''image: nginx''
        @ concat (map (\<lambda>(u, b). u @ newCodeBlock ''image: nginx'')
            [(''\<newline>and\<newline>'', ''```yml title=docker-compose.yml\<newline>two\<newline>```'')])
        @ ''\<newline>end''
   \<and> updateYamlCodeBlock
      (''# Stack\<newline>'' @ ''```yaml title=compose.yaml\<newline>one\<newline>```''
        @ concat (map (\<lambda>(u, b). u @ b) [(''\<newline>and\<newline>'', ''```yml title=docker-compose.yml\<newline>two\<newline>```'')])
        @ ''\<newline>end'')
      ''image: nginx''
     = Some (''# Stack\<newline>'' @ newCodeBlock ''image: nginx''
        @ concat (map (\<lambda>(u, b). u @ b) [(''\<newline>and\<newline>'', ''```yml title=docker-compose.yml\<newline>two\<newline>```'')])
        @ ''\<newline>end'')"
proof -
  have 1: "CHR 0x60 \<notin> set ''# Stack\<newline>''" by simp
  have 2: "line_start ''# Stack\<newline>''" by (simp add: line_start_def is_line_terminator_def)
  have 3: "yamlCodeBlockRegex [] ''```yaml title=compose.yaml\<newline>one\<newline>```'' = Some ((), [])"
    by code_simp
  have b: "yamlCodeBlockRegex [] ''```yml title=docker-compose.yml\<newline>two\<newline>```'' = Some ((), [])"
    by code_simp
  have 4: "\<forall>(u, b) \<in> set [(''\<newline>and\<newline>'', ''```yml title=docker-compose.yml\<newline>two\<newline>```'')].
             CHR 0x60 \<notin> set u \<and> u \<noteq> [] \<and> is_line_terminator (last u)
             \<and> yamlCodeBlockRegex [] b = Some ((), [])"
    using b by (simp add: is_line_terminator_def)
  have 5: "CHR 0x60 \<notin> set ''\<newline>end''" by simp
  have 6: "CHR ''$'' \<notin> set ''image: nginx''" by simp
  show ?thesis by (rule blocks_creation_and_update [OF 1 2 3 4 5 6])
qed

text \<open>
  On a note or template with two blocks, creation does not stop at the first block and
  update does not reach the second.
\<close>

theorem creation_global_update_first:
  "processYamlCodeBlocks
      ''```yaml title=compose.yaml\<newline>one\<newline>```\<newline>```yaml title=compose.yaml\<newline>two\<newline>```''
      ''image: nginx''
     = ''```yaml title=compose.yaml\<newline>image: nginx\<newline>```\<newline>```yaml title=compose.yaml\<newline>image: nginx\<newline>```''
   \<and> updateYamlCodeBlock
      ''```yaml title=compose.yaml\<newline>one\<newline>```\<newline>```yaml title=compose.yaml\<newline>two\<newline>```''
      ''image: nginx''
     = Some ''```yaml title=compose.yaml\<newline>image: nginx\<newline>```\<newline>```yaml title=compose.yaml\<newline>two\<newline>```''"
  by code_simp

section \<open>Stacks with the same name\<close>

text \<open>
  Claim C2, as the program has it. The stacks are fetched one per path, and their names are
  the names of the paths in order, so two paths with the same name give two stacks. The map
  from names to contents is filled in the order of the stacks, each entry overwriting the
  one before it with the same name: for a note whose value at the key is the name of
  \<open>s\<close>, when no stack after \<open>s\<close> has that name (and the name and the content of \<open>s\<close>
  are not empty), the body of the synchronisation rewrites the note with the content of
  \<open>s\<close>, whatever stacks come before \<open>s\<close>, and the rewritten note is in the vault
  afterwards.
\<close>

theorem later_stack_wins:
  assumes "distinct (map path v)" and "file \<in> set (getMarkdownFiles st v)"
    and "frontmatter file = Some fm" and "fm (frontmatterProperty st) = Some (FmString (name s))"
    and "name s \<noteq> []" and "content s \<noteq> []" and "\<forall>y \<in> set ys. name y \<noteq> name s"
  shows "sync_note st v (stackMap (xs @ s # ys)) file
           = Resolved (updateYamlCodeBlock (fileText file) (content s))
     \<and> (\<forall>t. updateYamlCodeBlock (fileText file) (content s) = Some t \<longrightarrow>
           (\<exists>k v'. checkNotesForMatchingStacks st v (xs @ s # ys) = Resolved (k, v')
              \<and> file\<lparr>fileText := t\<rparr> \<in> set v'))
     \<and> (\<forall>fetch ps stacks. fetch_contents fetch ps = Some stacks \<longrightarrow>
           map name stacks = map stack_name ps)"
proof -
  have m: "stackMap (xs @ s # ys) (name s) = Some (content s)"
    using assms(7) by (intro stackMap_last) simp_all
  have 1: "sync_note st v (stackMap (xs @ s # ys)) file
           = Resolved (updateYamlCodeBlock (fileText file) (content s))"
    using sync_note_value [OF assms(1-4), of "stackMap (xs @ s # ys)"] m assms(5,6) by simp
  have 2: "\<forall>t. updateYamlCodeBlock (fileText file) (content s) = Some t \<longrightarrow>
           (\<exists>k v'. checkNotesForMatchingStacks st v (xs @ s # ys) = Resolved (k, v')
              \<and> file\<lparr>fileText := t\<rparr> \<in> set v')"
    using matched_note_written [OF assms(1,2)] 1 by simp
  from 1 2 show ?thesis by (auto dest: fetch_contents_names)
qed

theorem later_stack_wins_witness:
  "sync_note DEFAULT_SETTINGS
      [\<lparr>kind = TFile, path = ''App.md'', fileText = ''```yaml title=compose.yaml\<newline>image: zero\<newline>```'',
        frontmatter = Some [''stackName'' \<mapsto> FmString ''app'']\<rparr>]
      (stackMap ([\<lparr>name = ''app'', content = ''image: one''\<rparr>] @ \<lparr>name = ''app'', content = ''image: two''\<rparr> # []))
      \<lparr>kind = TFile, path = ''App.md'', fileText = ''```yaml title=compose.yaml\<newline>image: zero\<newline>```'',
        frontmatter = Some [''stackName'' \<mapsto> FmString ''app'']\<rparr>
    = Resolved (Some ''```yaml title=compose.yaml\<newline>image: two\<newline>```'')"
proof -
  let ?note = "\<lparr>kind = TFile, path = ''App.md'', fileText = ''```yaml title=compose.yaml\<newline>image: zero\<newline>```'',
        frontmatter = Some [''stackName'' \<mapsto> FmString ''app'']\<rparr>"
  let ?s = "\<lparr>name = ''app'', content = ''image: two''\<rparr>"
  have d: "distinct (map path [?note])" by simp
  have l: "?note \<in> set (getMarkdownFiles DEFAULT_SETTINGS [?note])"
    by (simp add: getMarkdownFiles_def DEFAULT_SETTINGS_def trim_def vault_getMarkdownFiles_def
        endsWith_def startsWith_def)
  have f: "frontmatter ?note = Some [''stackName'' \<mapsto> FmString ''app'']" by simp
  have k: "[''stackName'' \<mapsto> FmString ''app''] (frontmatterProperty DEFAULT_SETTINGS) = Some (FmString (name ?s))"
    by (simp add: DEFAULT_SETTINGS_def)
  have n: "name ?s \<noteq> []" and c: "content ?s \<noteq> []" by simp_all
  have y: "\<forall>y \<in> set []. name y \<noteq> name ?s" by simp
  have u: "updateYamlCodeBlock (fileText ?note) (content ?s)
             = Some ''```yaml title=compose.yaml\<newline>image: two\<newline>```''"
    by code_simp
  from later_stack_wins [OF d l f k n c y, of "[\<lparr>name = ''app'', content = ''image: one''\<rparr>]"] u
  show ?thesis by simp
qed

text \<open>
  Two directories \<open>a/app\<close> and \<open>b/app\<close> give two stacks named \<open>app\<close>; the note for \<open>app\<close>
  is rewritten with the content of the second one, not of the first.
\<close>

theorem earlier_stack_does_not_win:
  "fetchAllComposeStackFiles
      (Some [RepoDir ''a'' (Some [RepoDir ''a/app'' (Some [RepoFile ''compose.yaml'' ''a/app/compose.yaml''])]),
             RepoDir ''b'' (Some [RepoDir ''b/app'' (Some [RepoFile ''compose.yaml'' ''b/app/compose.yaml''])])])
      [''a/app/compose.yaml'' \<mapsto> ''image: one'', ''b/app/compose.yaml'' \<mapsto> ''image: two'']
    = Some [\<lparr>name = ''app'', content = ''image: one''\<rparr>, \<lparr>name = ''app'', content = ''image: two''\<rparr>]
   \<and> sync_note DEFAULT_SETTINGS
      [\<lparr>kind = TFile, path = ''App.md'', fileText = ''```yaml title=compose.yaml\<newline>image: zero\<newline>```'',
        frontmatter = Some [''stackName'' \<mapsto> FmString ''app'']\<rparr>]
      (stackMap [\<lparr>name = ''app'', content = ''image: one''\<rparr>, \<lparr>name = ''app'', content = ''image: two''\<rparr>])
      \<lparr>kind = TFile, path = ''App.md'', fileText = ''```yaml title=compose.yaml\<newline>image: zero\<newline>```'',
        frontmatter = Some [''stackName'' \<mapsto> FmString ''app'']\<rparr>
    = Resolved (Some ''```yaml title=compose.yaml\<newline>image: two\<newline>```'')"
  by code_simp

section \<open>Templates with the content token\<close>




text \<open>
  The content is given to \<open>replace\<close> as a replacement string, so a \<open>$$\<close> in it comes out as
  a single \<open>$\<close>.
\<close>

lemma stackContent_dollar:
  "processTemplate DEFAULT_SETTINGS [''YYYY/MM/DD'' \<mapsto> ''2026/11/02'']
      \<lparr>generateText = Map.empty, generateObject = Map.empty\<rparr>
      ''{{stackContent}}''
      \<lparr>name = ''web'', content = ''command: echo $$HOME''\<rparr>
    = Some ''command: echo $HOME''"
  by code_simp

section \<open>The fenced-block rule, applied twice\<close>

text \<open>
  Claim C4, as the program has it. For every template and every stack content whose
  trimmed text holds no line feed followed by three backquotes, applying
  \<open>processYamlCodeBlocks\<close> to its own output with the same content gives that output
  again: each block that the first application wrote is matched whole by the second one,
  which writes the same block, and nothing else of the output is matched.
\<close>

theorem processYamlCodeBlocks_idempotent:
  assumes "\<not> str_includes (trim c) ''\<newline>```''"
  shows "processYamlCodeBlocks (processYamlCodeBlocks t c) c = processYamlCodeBlocks t c"
  unfolding processYamlCodeBlocks_replace_blocks using assms by (rule replace_blocks_idem)


theorem processYamlCodeBlocks_idempotent_witness:
  "processYamlCodeBlocks
     (processYamlCodeBlocks ''# {{stackName}}\<newline>```yml title=docker-compose.yml\<newline>old\<newline>```\<newline>''
        ''  services:\<newline>  web:\<newline>    image: nginx\<newline>'')
     ''  services:\<newline>  web:\<newline>    image: nginx\<newline>''
   = ''# {{stackName}}\<newline>```yaml title=compose.yaml\<newline>services:\<newline>  web:\<newline>    image: nginx\<newline>```\<newline>''"
proof -
  have h: "\<not> str_includes (trim ''  services:\<newline>  web:\<newline>    image: nginx\<newline>'') ''\<newline>```''"
    by code_simp
  have v: "processYamlCodeBlocks ''# {{stackName}}\<newline>```yml title=docker-compose.yml\<newline>old\<newline>```\<newline>''
        ''  services:\<newline>  web:\<newline>    image: nginx\<newline>''
      = ''# {{stackName}}\<newline>```yaml title=compose.yaml\<newline>services:\<newline>  web:\<newline>    image: nginx\<newline>```\<newline>''"
    by code_simp
  from processYamlCodeBlocks_idempotent [OF h,
      of "''# {{stackName}}\<newline>```yml title=docker-compose.yml\<newline>old\<newline>```\<newline>''"]
  show ?thesis unfolding v .
qed

text \<open>
  A content with a line that starts with three backquotes closes the block that is written
  for it: the second application matches the block up to that line only, and writes the
  whole content in front of the rest.
\<close>

theorem processYamlCodeBlocks_not_idempotent:
  "processYamlCodeBlocks ''```yaml title=compose.yaml\<newline>old\<newline>```'' ''a\<newline>```\<newline>b''
     = ''```yaml title=compose.yaml\<newline>a\<newline>```\<newline>b\<newline>```''
   \<and> processYamlCodeBlocks
       (processYamlCodeBlocks ''```yaml title=compose.yaml\<newline>old\<newline>```'' ''a\<newline>```\<newline>b'')
       ''a\<newline>```\<newline>b''
     = ''```yaml title=compose.yaml\<newline>a\<newline>```\<newline>b\<newline>```\<newline>b\<newline>```''
   \<and> processYamlCodeBlocks
       (processYamlCodeBlocks ''```yaml title=compose.yaml\<newline>old\<newline>```'' ''a\<newline>```\<newline>b'')
       ''a\<newline>```\<newline>b''
     \<noteq> processYamlCodeBlocks ''```yaml title=compose.yaml\<newline>old\<newline>```'' ''a\<newline>```\<newline>b''"
  by code_simp

section \<open>Missing stacks\<close>

text \<open>
  Claim C5. For the stacks that \<open>fetchAllComposeStackFiles\<close> returns and a vault whose
  entries have distinct paths, \<open>findMissingStacks\<close> resolves with exactly the stacks whose
  name is not among the frontmatter values at the configured key of the candidate notes,
  in the order of the stacks. With the stacks \<open>A\<close>, \<open>B\<close>, \<open>C\<close> and notes whose values are
  \<open>A\<close> and \<open>C\<close> it resolves with \<open>B\<close> alone (the instance below).
\<close>

theorem findMissingStacks_exact:
  assumes "fetchAllComposeStackFiles root fetch = Some stacks" and "distinct (map path v)"
  shows "findMissingStacks st v stacks
           = Resolved (filter (\<lambda>stack. name stack \<notin> set (frontmatter_values st v)) stacks)"
proof -
  have "filter (\<lambda>stack. Some (name stack) \<notin> key_value st ` set (getMarkdownFiles st v)) stacks
          = filter (\<lambda>stack. name stack \<notin> set (frontmatter_values st v)) stacks"
  proof (rule filter_cong [OF refl])
    fix s assume "s \<in> set stacks"
    with assms(1) have "name s \<noteq> []" by (rule fetched_names_not_empty)
    then have "(Some (name s) \<in> key_value st ` set (getMarkdownFiles st v))
                 = (name s \<in> set (frontmatter_values st v))"
      unfolding frontmatter_values_def by (rule key_value_in_values)
    then show "(Some (name s) \<notin> key_value st ` set (getMarkdownFiles st v))
                 = (name s \<notin> set (frontmatter_values st v))" by simp
  qed
  with findMissingStacks_listed [OF assms(2)] show ?thesis by simp
qed

theorem findMissingStacks_exact_witness:
  "findMissingStacks DEFAULT_SETTINGS
      [\<lparr>kind = TFile, path = ''A.md'', fileText = [], frontmatter = Some [''stackName'' \<mapsto> FmString ''A'']\<rparr>,
       \<lparr>kind = TFile, path = ''C.md'', fileText = [], frontmatter = Some [''stackName'' \<mapsto> FmString ''C'']\<rparr>]
      [\<lparr>name = ''A'', content = ''a''\<rparr>, \<lparr>name = ''B'', content = ''b''\<rparr>, \<lparr>name = ''C'', content = ''c''\<rparr>]
    = Resolved [\<lparr>name = ''B'', content = ''b''\<rparr>]"
proof -
  let ?v = "[\<lparr>kind = TFile, path = ''A.md'', fileText = [], frontmatter = Some [''stackName'' \<mapsto> FmString ''A'']\<rparr>,
       \<lparr>kind = TFile, path = ''C.md'', fileText = [], frontmatter = Some [''stackName'' \<mapsto> FmString ''C'']\<rparr>]"
  let ?root = "Some [RepoDir ''A'' (Some [RepoFile ''compose.yaml'' ''A/compose.yaml'']),
                     RepoDir ''B'' (Some [RepoFile ''compose.yaml'' ''B/compose.yaml'']),
                     RepoDir ''C'' (Some [RepoFile ''compose.yaml'' ''C/compose.yaml''])]"
  let ?fetch = "[''A/compose.yaml'' \<mapsto> ''a'', ''B/compose.yaml'' \<mapsto> ''b'', ''C/compose.yaml'' \<mapsto> ''c'']"
  let ?stacks = "[\<lparr>name = ''A'', content = ''a''\<rparr>, \<lparr>name = ''B'', content = ''b''\<rparr>, \<lparr>name = ''C'', content = ''c''\<rparr>]"
  have f: "fetchAllComposeStackFiles ?root ?fetch = Some ?stacks"
    by (simp add: fetchAllComposeStackFiles_def str_includes_def stack_of_def stack_name_def
      replace_str_def pop_def)
  have d: "distinct (map path ?v)" by simp
  have m: "getMarkdownFiles DEFAULT_SETTINGS ?v = ?v"
    by (simp add: getMarkdownFiles_def DEFAULT_SETTINGS_def trim_def vault_getMarkdownFiles_def
        endsWith_def startsWith_def)
  have "frontmatter_values DEFAULT_SETTINGS ?v = [''A'', ''C'']"
    by (simp add: frontmatter_values_def m) (simp add: DEFAULT_SETTINGS_def)
  with findMissingStacks_exact [OF f d, of DEFAULT_SETTINGS] show ?thesis by simp
qed

section \<open>The generation service\<close>

text \<open>
  Claim C7. Without a credential (the key of the settings is empty once trimmed),
  \<open>generateStackDescription\<close> returns \<open>Write description here\<close> and \<open>generateStackTags\<close>
  returns no tag, and neither sends a request. When the call fails, or when the tags that
  come back are outside the schema, the same values are returned. Both operations are total
  functions into their values: none of their branches is an exception. The tags are none or
  within the schema, and each operation sends one request at most.
\<close>

theorem generation_fallbacks:
  "(trim (openaiApiKey st) = [] \<longrightarrow>
      generateStackDescription st api stack = (''Write description here'', [])
      \<and> generateStackTags st api stack = ([], []))
   \<and> (generateText api (''Give a short description of '' @ [CHR 0x22] @ name stack @ [CHR 0x22]) = None
        \<longrightarrow> fst (generateStackDescription st api stack) = ''Write description here'')
   \<and> ((case generateObject api (''Suggest tags for '' @ [CHR 0x22] @ name stack @ [CHR 0x22]) of
          None \<Rightarrow> True
        | Some tags \<Rightarrow> \<not> tags_schema tags)
        \<longrightarrow> fst (generateStackTags st api stack) = [])
   \<and> (fst (generateStackTags st api stack) = [] \<or> tags_schema (fst (generateStackTags st api stack)))
   \<and> length (snd (generateStackDescription st api stack)) \<le> 1
   \<and> length (snd (generateStackTags st api stack)) \<le> 1"
  by (auto simp: generateStackDescription_def generateStackTags_def Let_def split: option.splits)

theorem generation_fallbacks_witness:
  "generateStackDescription DEFAULT_SETTINGS \<lparr>generateText = Map.empty, generateObject = Map.empty\<rparr>
       \<lparr>name = ''traefik'', content = ''services: {}''\<rparr> = (''Write description here'', [])
   \<and> generateStackTags DEFAULT_SETTINGS \<lparr>generateText = Map.empty, generateObject = Map.empty\<rparr>
       \<lparr>name = ''traefik'', content = ''services: {}''\<rparr> = ([], [])
   \<and> fst (generateStackDescription (DEFAULT_SETTINGS\<lparr>openaiApiKey := ''sk-1''\<rparr>)
          \<lparr>generateText = Map.empty, generateObject = [''Suggest tags for '' @ [CHR 0x22] @ ''traefik'' @ [CHR 0x22] \<mapsto> []]\<rparr>
          \<lparr>name = ''traefik'', content = ''services: {}''\<rparr>) = ''Write description here''
   \<and> fst (generateStackTags (DEFAULT_SETTINGS\<lparr>openaiApiKey := ''sk-1''\<rparr>)
          \<lparr>generateText = Map.empty, generateObject = [''Suggest tags for '' @ [CHR 0x22] @ ''traefik'' @ [CHR 0x22] \<mapsto> []]\<rparr>
          \<lparr>name = ''traefik'', content = ''services: {}''\<rparr>) = []"
proof -
  let ?s = "\<lparr>name = ''traefik'', content = ''services: {}''\<rparr>"
  let ?api0 = "\<lparr>generateText = Map.empty, generateObject = Map.empty\<rparr>"
  let ?api1 = "\<lparr>generateText = Map.empty, generateObject = [''Suggest tags for '' @ [CHR 0x22] @ ''traefik'' @ [CHR 0x22] \<mapsto> []]\<rparr>"
  let ?st1 = "DEFAULT_SETTINGS\<lparr>openaiApiKey := ''sk-1''\<rparr>"
  have k: "trim (openaiApiKey DEFAULT_SETTINGS) = []" by (simp add: DEFAULT_SETTINGS_def trim_def)
  have t: "generateText ?api1 (''Give a short description of '' @ [CHR 0x22] @ name ?s @ [CHR 0x22]) = None"
    by simp
  have o: "(case generateObject ?api1 (''Suggest tags for '' @ [CHR 0x22] @ name ?s @ [CHR 0x22]) of
          None \<Rightarrow> True | Some tags \<Rightarrow> \<not> tags_schema tags)"
    by (simp add: tags_schema_def)
  from generation_fallbacks [of DEFAULT_SETTINGS ?api0 ?s] k
  have a: "generateStackDescription DEFAULT_SETTINGS ?api0 ?s = (''Write description here'', [])
      \<and> generateStackTags DEFAULT_SETTINGS ?api0 ?s = ([], [])" by blast
  from generation_fallbacks [of ?st1 ?api1 ?s] t o
  have b: "fst (generateStackDescription ?st1 ?api1 ?s) = ''Write description here''
      \<and> fst (generateStackTags ?st1 ?api1 ?s) = []" by blast
  from a b show ?thesis by blast
qed

section \<open>The name of a stack\<close>

text \<open>
  Claim C8. The name that \<open>fetchAllComposeStackFiles\<close> pairs with the content of a file
  is computed by removing the first \<open>/compose.yaml\<close> from the path and taking the last
  segment of what is left, the sentinel \<open>__unknown__\<close> standing in for an empty segment.
  So for a file \<open>compose.yaml\<close> in a directory \<open>seg\<close> (under any parent path, and with no
  other \<open>/compose.yaml\<close> before it in the path) the name is \<open>seg\<close>, and it is the
  sentinel when \<open>seg\<close> is empty.
\<close>

theorem stack_name_of_directory:
  assumes "CHR ''/'' \<notin> set seg"
    and "parent = [] \<or> last parent = CHR ''/''"
    and "\<not> str_includes (parent @ seg) ''/compose.yaml''"
  shows "stack_name (parent @ seg @ ''/compose.yaml'') = (if seg = [] then ''__unknown__'' else seg)"
proof -
  have "split_first ''/compose.yaml'' (parent @ seg) = None"
    using assms(3) unfolding str_includes_def by blast
  then have "split_first ''/compose.yaml'' ((parent @ seg) @ ''/compose.yaml'') = Some (parent @ seg, [])"
    by (intro split_first_at_end) simp_all
  then have "replace_str (parent @ seg @ ''/compose.yaml'') ''/compose.yaml'' [] = parent @ seg"
    by (simp add: replace_str_def)
  then show ?thesis
    using last_segment [OF assms(1,2)] by (simp add: stack_name_def)
qed

theorem stack_name_of_directory_witness:
  "stack_name (''stacks/'' @ ''traefik'' @ ''/compose.yaml'') = ''traefik''"
proof -
  have 1: "CHR ''/'' \<notin> set ''traefik''" by simp
  have 2: "''stacks/'' = [] \<or> last ''stacks/'' = CHR ''/''" by simp
  have 3: "\<not> str_includes (''stacks/'' @ ''traefik'') ''/compose.yaml''"
    by (simp add: str_includes_def)
  show ?thesis using stack_name_of_directory [OF 1 2 3] by simp
qed

text \<open>
  A compose file at the top of the repository has no \<open>/compose.yaml\<close> in its path: nothing
  is removed, the path has one segment, and the name is \<open>compose.yaml\<close>, not the sentinel.
\<close>

theorem stack_name_top_level:
  "fetchAllComposeStackFiles (Some [RepoFile ''compose.yaml'' ''compose.yaml''])
       [''compose.yaml'' \<mapsto> ''services: {}'']
     = Some [\<lparr>name = ''compose.yaml'', content = ''services: {}''\<rparr>]
   \<and> stack_name ''compose.yaml'' \<noteq> ''__unknown__''"
  by (simp add: fetchAllComposeStackFiles_def str_includes_def stack_of_def stack_name_def
      replace_str_def pop_def)

text \<open>
  The listing keeps every file whose name includes \<open>compose.yaml\<close>, and only
  \<open>/compose.yaml\<close> is removed from a path: a file \<open>docker-compose.yaml\<close> is fetched, and
  its stack has the name of the file, not of the directory.
\<close>

lemma stack_name_other_file:
  "fetchAllComposeStackFiles
       (Some [RepoDir ''app'' (Some [RepoFile ''docker-compose.yaml'' ''app/docker-compose.yaml''])])
       [''app/docker-compose.yaml'' \<mapsto> ''services: {}'']
     = Some [\<lparr>name = ''docker-compose.yaml'', content = ''services: {}''\<rparr>]"
  by code_simp

section \<open>File names\<close>

text \<open>
  Claim C9. The file name of a note is a function of the settings, the clock and the name
  of the stack. It is returned unless the clock throws on the default format, and it ends
  in \<open>.md\<close>. With a prefix and a suffix that hold no date placeholder it is the prefix,
  the capitalized name, the suffix and \<open>.md\<close>, whatever the time. Every name is made, in
  one way, of a first word, then runs of separators (hyphens, underscores and white space,
  a run not being empty) each followed by a word, where the words hold no separator and
  only the first and the last may be empty; its capitalized name is these words, each with
  its first character in upper case and the others in lower case, joined by single spaces.
  \<open>my-app_stack\<close> gives \<open>My App Stack\<close>.
\<close>

theorem generateFileName_properties:
  "(generateFileName st now nm = None \<longrightarrow> now ''YYYY/MM/DD'' = None)
   \<and> (\<forall>f. generateFileName st now nm = Some f \<longrightarrow> (\<exists>g. f = g @ units ''.md''))
   \<and> (\<not> str_includes (fileNamePrefix st) ''{{date'' \<and> \<not> str_includes (fileNameSuffix st) ''{{date''
        \<and> now ''YYYY/MM/DD'' \<noteq> None
      \<longrightarrow> generateFileName st now nm
            = Some (units (fileNamePrefix st) @ capitalizeStackName nm @ units (fileNameSuffix st)
                      @ units ''.md''))
   \<and> (\<exists>w0 rest. nm = w0 @ concat (map (\<lambda>(s, w). s @ w) rest)
         \<and> (\<forall>c \<in> set w0. \<not> is_separator c)
         \<and> (\<forall>(s, w) \<in> set rest. s \<noteq> [] \<and> (\<forall>c \<in> set s. is_separator c)
               \<and> (\<forall>c \<in> set w. \<not> is_separator c))
         \<and> (\<forall>(s, w) \<in> set (butlast rest). w \<noteq> []))
   \<and> ((\<forall>c \<in> set w0. \<not> is_separator c)
        \<and> (\<forall>(s, w) \<in> set rest. s \<noteq> [] \<and> (\<forall>c \<in> set s. is_separator c)
              \<and> (\<forall>c \<in> set w. \<not> is_separator c))
        \<and> (\<forall>(s, w) \<in> set (butlast rest). w \<noteq> [])
      \<longrightarrow> capitalizeStackName (w0 @ concat (map (\<lambda>(s, w). s @ w) rest))
            = join (units '' '') (map capitalize_word (w0 # map snd rest)))
   \<and> capitalize_word [] = []
   \<and> capitalize_word (c # cs) = upper_char c @ units (map lower_char cs)
   \<and> capitalizeStackName ''my-app_stack'' = units ''My App Stack''"
proof (intro conjI impI allI)
  show "capitalizeStackName ''my-app_stack'' = units ''My App Stack''" by code_simp
  show "\<exists>w0 rest. nm = w0 @ concat (map (\<lambda>(s, w). s @ w) rest)
         \<and> (\<forall>c \<in> set w0. \<not> is_separator c)
         \<and> (\<forall>(s, w) \<in> set rest. s \<noteq> [] \<and> (\<forall>c \<in> set s. is_separator c)
               \<and> (\<forall>c \<in> set w. \<not> is_separator c))
         \<and> (\<forall>(s, w) \<in> set (butlast rest). w \<noteq> [])"
    by (rule words_of_name)
next
  assume "(\<forall>c \<in> set w0. \<not> is_separator c)
        \<and> (\<forall>(s, w) \<in> set rest. s \<noteq> [] \<and> (\<forall>c \<in> set s. is_separator c)
              \<and> (\<forall>c \<in> set w. \<not> is_separator c))
        \<and> (\<forall>(s, w) \<in> set (butlast rest). w \<noteq> [])"
  then have "split_words (w0 @ concat (map (\<lambda>(s, w). s @ w) rest)) = w0 # map snd rest"
    by (intro split_words_words) simp_all
  then show "capitalizeStackName (w0 @ concat (map (\<lambda>(s, w). s @ w) rest))
            = join (units '' '') (map capitalize_word (w0 # map snd rest))"
    by (simp only: capitalizeStackName_def)
qed (auto simp: capitalize_word_Nil capitalize_word_Cons
      dest: generateFileName_None generateFileName_md intro: generateFileName_no_date)

theorem generateFileName_properties_witness:
  "generateFileName (DEFAULT_SETTINGS\<lparr>fileNameSuffix := '' (docker)''\<rparr>)
       [''YYYY/MM/DD'' \<mapsto> ''2026/11/02''] ''my-app_stack''
     = Some (units ''My App Stack (docker).md'')
   \<and> capitalizeStackName
        ([] @ concat (map (\<lambda>(s, w). s @ w)
                 [(''-'', [CHR 0xE9, CHR ''c'', CHR ''o'', CHR ''l'', CHR ''e'']),
                  ([CHR ''_'', CHR 0xA0], [CHR 0xC9, CHR ''T'', CHR 0xC9]),
                  (''  '', [CHR 0xFF, CHR 0xDF])]))
     = [32, 201, 99, 111, 108, 101, 32, 201, 116, 233, 32, 376, 223]"
proof -
  let ?st = "DEFAULT_SETTINGS\<lparr>fileNameSuffix := '' (docker)''\<rparr>"
  let ?now = "[''YYYY/MM/DD'' \<mapsto> ''2026/11/02'']"
  let ?rest = "[(''-'', [CHR 0xE9, CHR ''c'', CHR ''o'', CHR ''l'', CHR ''e'']),
                ([CHR ''_'', CHR 0xA0], [CHR 0xC9, CHR ''T'', CHR 0xC9]),
                (''  '', [CHR 0xFF, CHR 0xDF])]"
  note p = generateFileName_properties [of ?st ?now "''my-app_stack''" "[]" ?rest]
  have h: "\<not> str_includes (fileNamePrefix ?st) ''{{date'' \<and> \<not> str_includes (fileNameSuffix ?st) ''{{date''
        \<and> ?now ''YYYY/MM/DD'' \<noteq> None"
    by (simp add: DEFAULT_SETTINGS_def str_includes_def)
  have c: "capitalizeStackName ''my-app_stack'' = units ''My App Stack''" using p by blast
  from p h have "generateFileName ?st ?now ''my-app_stack''
     = Some (units (fileNamePrefix ?st) @ capitalizeStackName ''my-app_stack''
               @ units (fileNameSuffix ?st) @ units ''.md'')"
    by blast
  then have g: "generateFileName ?st ?now ''my-app_stack'' = Some (units ''My App Stack (docker).md'')"
    by (simp add: c DEFAULT_SETTINGS_def units_def)
  have w: "(\<forall>c \<in> set []. \<not> is_separator c)
        \<and> (\<forall>(s, w) \<in> set ?rest. s \<noteq> [] \<and> (\<forall>c \<in> set s. is_separator c)
              \<and> (\<forall>c \<in> set w. \<not> is_separator c))
        \<and> (\<forall>(s, w) \<in> set (butlast ?rest). w \<noteq> [])"
    by (simp add: is_separator_def is_space_def)
  from p w have "capitalizeStackName ([] @ concat (map (\<lambda>(s, w). s @ w) ?rest))
            = join (units '' '') (map capitalize_word ([] # map snd ?rest))"
    by blast
  also have "\<dots> = [32, 201, 99, 111, 108, 101, 32, 201, 116, 233, 32, 376, 223]"
    by code_simp
  finally show ?thesis using g by blast
qed

text \<open>
  The prefix and the suffix may hold date placeholders, and then the file name follows the
  clock: the same settings and the same stack give two names on two days.
\<close>

theorem generateFileName_depends_on_clock:
  "generateFileName (DEFAULT_SETTINGS\<lparr>fileNamePrefix := ''{{date:YYYY-MM-DD}} ''\<rparr>)
       [''YYYY/MM/DD'' \<mapsto> ''2026/11/02'', ''YYYY-MM-DD'' \<mapsto> ''2026-11-02''] ''web''
     = Some (units ''2026-11-02 Web.md'')
   \<and> generateFileName (DEFAULT_SETTINGS\<lparr>fileNamePrefix := ''{{date:YYYY-MM-DD}} ''\<rparr>)
       [''YYYY/MM/DD'' \<mapsto> ''2026/11/03'', ''YYYY-MM-DD'' \<mapsto> ''2026-11-03''] ''web''
     = Some (units ''2026-11-03 Web.md'')
   \<and> generateFileName (DEFAULT_SETTINGS\<lparr>fileNamePrefix := ''{{date:YYYY-MM-DD}} ''\<rparr>)
       [''YYYY/MM/DD'' \<mapsto> ''2026/11/02'', ''YYYY-MM-DD'' \<mapsto> ''2026-11-02''] ''web''
     \<noteq> generateFileName (DEFAULT_SETTINGS\<lparr>fileNamePrefix := ''{{date:YYYY-MM-DD}} ''\<rparr>)
       [''YYYY/MM/DD'' \<mapsto> ''2026/11/03'', ''YYYY-MM-DD'' \<mapsto> ''2026-11-03''] ''web''"
  by code_simp

section \<open>Notes with an empty value at the key\<close>

text \<open>
  Claim C10. A listed note whose frontmatter has the empty string at the configured key is
  handled as a note without the key, whatever the stacks are (a stack with the empty name
  among them too): the body of the synchronisation returns \<open>false\<close> for it, it does not
  enter the count, which is the number of notes whose body returns \<open>true\<close>, and it is in the
  vault afterwards as it was; it adds nothing to the set of existing names, and every
  stack with the empty name is among the missing stacks.
\<close>

theorem empty_value_is_no_key:
  assumes "distinct (map path v)" and "file \<in> set (getMarkdownFiles st v)"
    and "frontmatter file = Some fm" and "fm (frontmatterProperty st) = Some (FmString [])"
  shows "sync_note st v (stackMap stacks) file = Resolved None
     \<and> note_stack_name st v file = Resolved None
     \<and> (\<exists>k v'. checkNotesForMatchingStacks st v stacks = Resolved (k, v')
           \<and> k = length (filter (\<lambda>f. sync_note st v (stackMap stacks) f \<noteq> Resolved None)
                          (getMarkdownFiles st v))
           \<and> file \<in> set v')
     \<and> (\<exists>found. findMissingStacks st v stacks = Resolved found
           \<and> (\<forall>s \<in> set stacks. name s = [] \<longrightarrow> s \<in> set found))"
proof -
  have 1: "sync_note st v (stackMap stacks) file = Resolved None"
    using sync_note_value [OF assms, of "stackMap stacks"] by simp
  have 2: "note_stack_name st v file = Resolved None"
    using assms(3,4) by (simp add: note_stack_name_listed [OF assms(1,2)] key_value_def)
  have 3: "\<exists>found. findMissingStacks st v stacks = Resolved found
           \<and> (\<forall>s \<in> set stacks. name s = [] \<longrightarrow> s \<in> set found)"
    using key_value_not_empty [of st]
    by (auto simp: findMissingStacks_listed [OF assms(1)] image_iff) metis
  from 1 2 3 unmatched_note_stays [OF assms(1,2) 1] show ?thesis by blast
qed


theorem empty_value_is_no_key_witness:
  "sync_note DEFAULT_SETTINGS
      [\<lparr>kind = TFile, path = ''Empty.md'', fileText = ''```yaml title=compose.yaml\<newline>old\<newline>```'',
        frontmatter = Some [''stackName'' \<mapsto> FmString []]\<rparr>]
      (stackMap [\<lparr>name = [], content = ''image: x''\<rparr>])
      \<lparr>kind = TFile, path = ''Empty.md'', fileText = ''```yaml title=compose.yaml\<newline>old\<newline>```'',
        frontmatter = Some [''stackName'' \<mapsto> FmString []]\<rparr>
    = Resolved None
   \<and> (\<exists>found. findMissingStacks DEFAULT_SETTINGS
      [\<lparr>kind = TFile, path = ''Empty.md'', fileText = ''```yaml title=compose.yaml\<newline>old\<newline>```'',
        frontmatter = Some [''stackName'' \<mapsto> FmString []]\<rparr>]
      [\<lparr>name = [], content = ''image: x''\<rparr>] = Resolved found
        \<and> \<lparr>name = [], content = ''image: x''\<rparr> \<in> set found)"
proof -
  let ?note = "\<lparr>kind = TFile, path = ''Empty.md'', fileText = ''```yaml title=compose.yaml\<newline>old\<newline>```'',
        frontmatter = Some [''stackName'' \<mapsto> FmString []]\<rparr>"
  let ?s = "\<lparr>name = [], content = ''image: x''\<rparr>"
  have d: "distinct (map path [?note])" by simp
  have l: "?note \<in> set (getMarkdownFiles DEFAULT_SETTINGS [?note])"
    by (simp add: getMarkdownFiles_def DEFAULT_SETTINGS_def trim_def vault_getMarkdownFiles_def
        endsWith_def startsWith_def)
  have f: "frontmatter ?note = Some [''stackName'' \<mapsto> FmString []]" by simp
  have k: "[''stackName'' \<mapsto> FmString []] (frontmatterProperty DEFAULT_SETTINGS) = Some (FmString [])"
    by (simp add: DEFAULT_SETTINGS_def)
  from empty_value_is_no_key [OF d l f k, of "[?s]"] show ?thesis by auto
qed

end
